theory Spec2Isabelle
  imports Main
begin

section \<open>Gmail Auto Labeler: the script and the mailbox it talks to\<close>

text \<open>
  The development embeds \<^verbatim>\<open>Gmail_Auto_Labeler_Script.py\<close>. The script is a sequence of
  calls to the Gmail API, so the mailbox is an explicit state (\<open>world\<close>) that every
  function takes and returns. The state also records each request that was sent
  (\<open>calls\<close>) and each line that was logged (\<open>logged\<close>), which is what the properties
  below speak about.
\<close>

subsection \<open>Exceptions, requests and log lines\<close>

datatype exn =
    HttpError
  | OverflowError
  | FileNotFoundError
  | JSONDecodeError
  | AuthFailure

text \<open>
  A request body is a JSON object: a list of keys with their values. The body of
  \<open>messages.modify\<close> maps a key to a list of label ids, the body of \<open>labels.create\<close>
  maps a key to a string.
\<close>

datatype api_call =
    OAuthRefresh
  | OAuthFlow
  | BuildService
  | LabelsList
  | LabelsCreate "(string \<times> string) list"
  | MessagesList string "string option"
  | MessagesGet string string
  | MessagesModify string "(string \<times> string list) list"

text \<open>
  One constructor for each \<open>logging\<close> call of the script, with the values its message
  is formatted from: the label name for the lines of \<open>get_or_create_label\<close>; the message
  id, the sender and the label name for the two lines of the inner loop; the sender and
  the number of days for the line about an empty search result.
\<close>

datatype log_entry =
    InfoConfigLoaded
  | ErrorConfigNotFound
  | ErrorConfigParse
  | InfoAuthStart
  | InfoAuthLoading
  | InfoAuthRefreshing
  | InfoAuthNoValid
  | InfoAuthSaved
  | InfoAuthValid
  | InfoAuthBuilt
  | ErrorAuth
  | InfoLabelExists string
  | InfoLabelNotFound string
  | InfoLabelCreated string
  | ErrorLabel string
  | WarningLabelMissing string string
  | InfoNoEmails string int
  | InfoLabeled string string string
  | InfoAlreadyLabeled string string string
  | ErrorOccurred
  | WarningNoSenderLabels
  | ErrorInvalidDays string

subsection \<open>The world: mailbox, clock, credentials, traces\<close>

record list_response =
  messages :: "string list option"
  nextPageToken :: "string option"

record credentials =
  valid :: bool
  expired :: bool
  refresh_token :: bool

text \<open>
  \<^item> \<open>labels\<close>: the label list as \<open>labels.list\<close> returns it, each entry \<open>(name, id)\<close>;
  \<^item> \<open>new_label_id\<close>: the id the service gives a label created with a name, given the
    labels that exist;
  \<^item> \<open>label_ids\<close>: for a message id, the \<open>labelIds\<close> field of \<open>messages.get\<close>
    (\<open>None\<close> when the response has no such field);
  \<^item> \<open>search\<close>: the response of \<open>messages.list\<close> to a query and a page token;
  \<^item> \<open>faults\<close>: for each coming request, whether the service answers it with an
    \<open>HttpError\<close> (an exhausted list means no more faults);
  \<^item> \<open>today\<close>: the proleptic Gregorian ordinal of the current date, and \<open>strftime\<close> its
    rendering as \<open>%Y/%m/%d\<close>;
  \<^item> \<open>token_file\<close>: the credentials stored in \<open>token.json\<close>, if the file exists.

  The Gmail service is not part of the script. What the model takes from it is what the
  script relies on: a created label is listed afterwards, \<open>addLabelIds\<close> adds labels to
  a message, the answer to a search does not depend on the labels, and a request that is
  answered with an error changes nothing.
\<close>

record world =
  labels :: "(string \<times> string) list"
  new_label_id :: "(string \<times> string) list \<Rightarrow> string \<Rightarrow> string"
  label_ids :: "string \<Rightarrow> string list option"
  search :: "string \<Rightarrow> string option \<Rightarrow> list_response"
  faults :: "bool list"
  today :: int
  strftime :: "int \<Rightarrow> string"
  token_file :: "credentials option"
  calls :: "api_call list"
  logged :: "log_entry list"

text \<open>\<open>d.get(key, default)\<close>, given the result of looking the key up.\<close>

definition or_default :: "'a option \<Rightarrow> 'a \<Rightarrow> 'a" where
  "or_default v d = (case v of None \<Rightarrow> d | Some x \<Rightarrow> x)"

definition logging :: "log_entry \<Rightarrow> world \<Rightarrow> world" where
  "logging e w = w\<lparr>logged := logged w @ [e]\<rparr>"

text \<open>
  Sending a request records it and consumes one entry of the fault schedule; the entry
  says whether the service answers with an \<open>HttpError\<close>.
\<close>

definition faulty :: "world \<Rightarrow> bool" where
  "faulty w = (case faults w of [] \<Rightarrow> False | b # bs \<Rightarrow> b)"

definition sent :: "api_call \<Rightarrow> world \<Rightarrow> world" where
  "sent c w = w\<lparr>faults := tl (faults w), calls := calls w @ [c]\<rparr>"

subsection \<open>The Gmail operations the script uses\<close>

text \<open>The two ways a request changes the mailbox.\<close>

definition add_label :: "string \<Rightarrow> string \<Rightarrow> world \<Rightarrow> world" where
  "add_label name lid w = w\<lparr>labels := labels w @ [(name, lid)]\<rparr>"

definition store_labels :: "string \<Rightarrow> string list \<Rightarrow> world \<Rightarrow> world" where
  "store_labels mid ls w = w\<lparr>label_ids := (label_ids w)(mid := Some ls)\<rparr>"

definition labels_list :: "world \<Rightarrow> (exn + (string \<times> string) list) \<times> world" where
  "labels_list w =
     (if faulty w then (Inl HttpError, sent LabelsList w)
      else (Inr (labels w), sent LabelsList w))"

definition labels_create :: "(string \<times> string) list \<Rightarrow> world \<Rightarrow> (exn + string) \<times> world" where
  "labels_create body w =
     (if faulty w then (Inl HttpError, sent (LabelsCreate body) w)
      else
        (let name = or_default (map_of body ''name'') [];
             lid = new_label_id w (labels w) name
         in (Inr lid, add_label name lid (sent (LabelsCreate body) w))))"

definition messages_list :: "string \<Rightarrow> world \<Rightarrow> (exn + list_response) \<times> world" where
  "messages_list q w =
     (if faulty w then (Inl HttpError, sent (MessagesList q None) w)
      else (Inr (search w q None), sent (MessagesList q None) w))"

definition messages_get :: "string \<Rightarrow> world \<Rightarrow> (exn + string list option) \<times> world" where
  "messages_get mid w =
     (if faulty w then (Inl HttpError, sent (MessagesGet mid ''metadata'') w)
      else (Inr (label_ids w mid), sent (MessagesGet mid ''metadata'') w))"

text \<open>
  \<open>messages.modify\<close> removes the ids under \<open>removeLabelIds\<close> and adds the ids under
  \<open>addLabelIds\<close> that the message does not carry yet.
\<close>

definition field :: "(string \<times> string list) list \<Rightarrow> string \<Rightarrow> string list" where
  "field body k = or_default (map_of body k) []"

definition modified :: "(string \<times> string list) list \<Rightarrow> string list \<Rightarrow> string list" where
  "modified body old =
     (let kept = filter (\<lambda>l. l \<notin> set (field body ''removeLabelIds'')) old
      in kept @ filter (\<lambda>l. l \<notin> set kept) (remdups (field body ''addLabelIds'')))"

definition existing :: "world \<Rightarrow> string \<Rightarrow> string list" where
  "existing w mid = or_default (label_ids w mid) []"

definition messages_modify ::
  "string \<Rightarrow> (string \<times> string list) list \<Rightarrow> world \<Rightarrow> (exn + unit) \<times> world" where
  "messages_modify mid body w =
     (if faulty w then (Inl HttpError, sent (MessagesModify mid body) w)
      else
        (Inr (),
         store_labels mid (modified body (existing w mid)) (sent (MessagesModify mid body) w)))"

subsection \<open>\<open>get_or_create_label\<close>\<close>

text \<open>
  The dictionary comprehension over the listed labels keeps, for a name that occurs
  twice, the id of the later entry: \<open>map_of\<close> on the reversed list.
\<close>

definition label_map :: "(string \<times> string) list \<Rightarrow> string \<Rightarrow> string option" where
  "label_map ls = map_of (rev ls)"

definition get_or_create_label :: "string \<Rightarrow> world \<Rightarrow> (exn + string) \<times> world" where
  "get_or_create_label label_name w =
     (case labels_list w of
        (Inl e, w1) \<Rightarrow> (Inl e, logging (ErrorLabel label_name) w1)
      | (Inr ls, w1) \<Rightarrow>
          (case label_map ls label_name of
             Some lid \<Rightarrow> (Inr lid, logging (InfoLabelExists label_name) w1)
           | None \<Rightarrow>
               (let w2 = logging (InfoLabelNotFound label_name) w1;
                    label_body = [(''labelListVisibility'', ''labelShow''),
                                  (''messageListVisibility'', ''show''),
                                  (''name'', label_name)]
                in case labels_create label_body w2 of
                     (Inl e, w3) \<Rightarrow> (Inl e, logging (ErrorLabel label_name) w3)
                   | (Inr lid, w3) \<Rightarrow> (Inr lid, logging (InfoLabelCreated label_name) w3))))"

subsection \<open>\<open>label_emails\<close>\<close>

text \<open>
  \<open>datetime.now() - timedelta(days=n)\<close> raises \<open>OverflowError\<close> when \<open>n\<close> has more than
  nine digits or the resulting date leaves the years 1 to 9999.
\<close>

definition date_n_days_ago :: "world \<Rightarrow> int \<Rightarrow> string option" where
  "date_n_days_ago w days_to_look_back =
     (if \<bar>days_to_look_back\<bar> > 999999999 then None
      else if today w - days_to_look_back < 1 \<or> today w - days_to_look_back > 3652059 then None
      else Some (strftime w (today w - days_to_look_back)))"

text \<open>
  A \<open>for\<close> loop whose body may raise: the first exception ends the loop and is the
  loop's outcome.
\<close>

fun for_each ::
  "('a \<Rightarrow> world \<Rightarrow> (exn + unit) \<times> world) \<Rightarrow> 'a list \<Rightarrow> world \<Rightarrow> (exn + unit) \<times> world" where
  "for_each body [] w = (Inr (), w)"
| "for_each body (x # xs) w =
     (case body x w of
        (Inl e, w1) \<Rightarrow> (Inl e, w1)
      | (Inr u, w1) \<Rightarrow> for_each body xs w1)"

text \<open>The body of the inner loop: one message of the search result.\<close>

definition label_message ::
  "string \<Rightarrow> string \<Rightarrow> string \<Rightarrow> string \<Rightarrow> world \<Rightarrow> (exn + unit) \<times> world" where
  "label_message label_id sender_email label_name m w =
     (case messages_get m w of
        (Inl e, w1) \<Rightarrow> (Inl e, w1)
      | (Inr msg, w1) \<Rightarrow>
          (let existing_labels = or_default msg []
           in if label_id \<notin> set existing_labels then
                (case messages_modify m [(''addLabelIds'', [label_id])] w1 of
                   (Inl e, w2) \<Rightarrow> (Inl e, w2)
                 | (Inr u, w2) \<Rightarrow> (Inr (), logging (InfoLabeled m sender_email label_name) w2))
              else (Inr (), logging (InfoAlreadyLabeled m sender_email label_name) w1)))"

definition label_messages ::
  "string \<Rightarrow> string \<Rightarrow> string \<Rightarrow> string list \<Rightarrow> world \<Rightarrow> (exn + unit) \<times> world" where
  "label_messages label_id sender_email label_name msgs w =
     for_each (label_message label_id sender_email label_name) msgs w"

definition query_for :: "string \<Rightarrow> string \<Rightarrow> string" where
  "query_for sender_email date = ''from:'' @ sender_email @ '' after:'' @ date"

text \<open>
  The body of the outer loop: one item of \<open>sender_label_map\<close>. Both \<open>continue\<close>
  statements end the body normally.
\<close>

definition label_rule :: "int \<Rightarrow> string \<times> string \<Rightarrow> world \<Rightarrow> (exn + unit) \<times> world" where
  "label_rule days_to_look_back rule w =
     (case rule of (sender_email, label_name) \<Rightarrow>
        (case get_or_create_label label_name w of
           (Inl e, w1) \<Rightarrow> (Inl e, w1)
         | (Inr label_id, w1) \<Rightarrow>
             if label_id = [] then
               (Inr (), logging (WarningLabelMissing label_name sender_email) w1)
             else
               (case date_n_days_ago w1 days_to_look_back of
                  None \<Rightarrow> (Inl OverflowError, w1)
                | Some d \<Rightarrow>
                    (case messages_list (query_for sender_email d) w1 of
                       (Inl e, w2) \<Rightarrow> (Inl e, w2)
                     | (Inr results, w2) \<Rightarrow>
                         (let msgs = or_default (messages results) []
                          in if msgs = [] then
                               (Inr (), logging (InfoNoEmails sender_email days_to_look_back) w2)
                             else label_messages label_id sender_email label_name msgs w2)))))"

definition label_rules :: "(string \<times> string) list \<Rightarrow> int \<Rightarrow> world \<Rightarrow> (exn + unit) \<times> world" where
  "label_rules sender_label_map days_to_look_back w =
     for_each (label_rule days_to_look_back) sender_label_map w"

text \<open>The \<open>try\<close> around the whole loop catches \<open>HttpError\<close> and nothing else.\<close>

definition label_emails :: "(string \<times> string) list \<Rightarrow> int \<Rightarrow> world \<Rightarrow> (exn + unit) \<times> world" where
  "label_emails sender_label_map days_to_look_back w =
     (case label_rules sender_label_map days_to_look_back w of
        (Inl HttpError, w1) \<Rightarrow> (Inr (), logging ErrorOccurred w1)
      | (r, w1) \<Rightarrow> (r, w1))"

subsection \<open>\<open>load_config\<close> and \<open>authenticate_gmail\<close>\<close>

text \<open>
  \<open>config.json\<close> as \<open>json.load\<close> returns it: an object whose two keys may be absent.
  \<open>SENDER_LABELS\<close> maps a sender to a label name, \<open>DAYS_TO_LOOK_BACK\<close> is an object
  with string values.
\<close>

record config =
  SENDER_LABELS :: "(string \<times> string) list option"
  DAYS_TO_LOOK_BACK :: "(string \<times> string) list option"

datatype config_file = NoFile | BadJson | Json config

definition load_config :: "config_file \<Rightarrow> world \<Rightarrow> (exn + config) \<times> world" where
  "load_config file w =
     (case file of
        NoFile \<Rightarrow> (Inl FileNotFoundError, logging ErrorConfigNotFound w)
      | BadJson \<Rightarrow> (Inl JSONDecodeError, logging ErrorConfigParse w)
      | Json c \<Rightarrow> (Inr c, logging InfoConfigLoaded w))"

text \<open>
  A step of the authentication that leaves the process (token refresh, the OAuth flow,
  building the service). Any exception is logged and raised again.
\<close>

definition auth_step :: "api_call \<Rightarrow> world \<Rightarrow> (exn + unit) \<times> world" where
  "auth_step c w =
     (if faulty w then (Inl AuthFailure, logging ErrorAuth (sent c w))
      else (Inr (), sent c w))"

definition build_service :: "world \<Rightarrow> (exn + unit) \<times> world" where
  "build_service w =
     (case auth_step BuildService w of
        (Inl e, w1) \<Rightarrow> (Inl e, w1)
      | (Inr u, w1) \<Rightarrow> (Inr (), logging InfoAuthBuilt w1))"

definition save_token :: "credentials \<Rightarrow> world \<Rightarrow> world" where
  "save_token c w = logging InfoAuthSaved (w\<lparr>token_file := Some c\<rparr>)"

definition authenticate_gmail :: "world \<Rightarrow> (exn + unit) \<times> world" where
  "authenticate_gmail w0 =
     (let w1 = logging InfoAuthStart w0;
          creds = token_file w1;
          w2 = (if creds = None then w1 else logging InfoAuthLoading w1)
      in case creds of
           Some c \<Rightarrow>
             if valid c then build_service (logging InfoAuthValid w2)
             else if expired c \<and> refresh_token c then
               (case auth_step OAuthRefresh (logging InfoAuthRefreshing w2) of
                  (Inl e, w3) \<Rightarrow> (Inl e, w3)
                | (Inr u, w3) \<Rightarrow>
                    build_service (save_token (c\<lparr>valid := True, expired := False\<rparr>) w3))
             else
               (case auth_step OAuthFlow (logging InfoAuthNoValid w2) of
                  (Inl e, w3) \<Rightarrow> (Inl e, w3)
                | (Inr u, w3) \<Rightarrow>
                    build_service
                      (save_token \<lparr>valid = True, expired = False, refresh_token = True\<rparr> w3))
         | None \<Rightarrow>
             (case auth_step OAuthFlow (logging InfoAuthNoValid w2) of
                (Inl e, w3) \<Rightarrow> (Inl e, w3)
              | (Inr u, w3) \<Rightarrow>
                  build_service
                    (save_token \<lparr>valid = True, expired = False, refresh_token = True\<rparr> w3)))"

subsection \<open>\<open>int(days_to_look_back_str)\<close>\<close>

text \<open>
  Python's \<open>int\<close> on a string: white space is stripped at both ends, one sign may come
  first, then decimal digits, where a single underscore may stand between two digits.
  Anything else is a \<open>ValueError\<close>, here \<open>None\<close>. A character is read as its code point
  (below 256): the white space \<open>int\<close> accepts there is tab, line feed, vertical tab,
  form feed, carriage return, space, \<open>0x85\<close> and \<open>0xA0\<close>. The limit on the number of
  digits that recent interpreters impose (4300 by default) is not part of the model.
\<close>

definition is_space :: "char \<Rightarrow> bool" where
  "is_space c = ((of_char c :: nat) \<in> {9, 10, 11, 12, 13, 32, 133, 160})"

definition is_digit :: "char \<Rightarrow> bool" where
  "is_digit c = (48 \<le> (of_char c :: nat) \<and> (of_char c :: nat) \<le> 57)"

definition digit_val :: "char \<Rightarrow> int" where
  "digit_val c = int (of_char c) - 48"

fun digits_from :: "int \<Rightarrow> string \<Rightarrow> int option" where
  "digits_from acc [] = Some acc"
| "digits_from acc [c] = (if is_digit c then Some (10 * acc + digit_val c) else None)"
| "digits_from acc (c # d # cs) =
     (if is_digit c then digits_from (10 * acc + digit_val c) (d # cs)
      else if c = CHR ''_'' \<and> is_digit d then digits_from acc (d # cs)
      else None)"

definition py_digits :: "string \<Rightarrow> int option" where
  "py_digits s =
     (case s of
        [] \<Rightarrow> None
      | c # cs \<Rightarrow> if is_digit c then digits_from 0 s else None)"

definition strip :: "string \<Rightarrow> string" where
  "strip s = rev (dropWhile is_space (rev (dropWhile is_space s)))"

definition py_int :: "string \<Rightarrow> int option" where
  "py_int s =
     (case strip s of
        [] \<Rightarrow> None
      | c # r \<Rightarrow>
          if c = CHR ''-'' then map_option uminus (py_digits r)
          else if c = CHR ''+'' then py_digits r
          else py_digits (c # r))"

subsection \<open>\<open>main\<close>\<close>

text \<open>\<open>config.get("DAYS_TO_LOOK_BACK", {}).get("Days", "30")\<close>\<close>

definition days_to_look_back_str :: "config \<Rightarrow> string" where
  "days_to_look_back_str cfg =
     or_default (map_of (or_default (DAYS_TO_LOOK_BACK cfg) []) ''Days'') ''30''"

definition main :: "config_file \<Rightarrow> world \<Rightarrow> (exn + unit) \<times> world" where
  "main file w =
     (case load_config file w of
        (Inl e, w1) \<Rightarrow> (Inl e, w1)
      | (Inr cfg, w1) \<Rightarrow>
          (let sender_labels = or_default (SENDER_LABELS cfg) []
           in if sender_labels = [] then (Inr (), logging WarningNoSenderLabels w1)
              else
                (case py_int (days_to_look_back_str cfg) of
                   None \<Rightarrow> (Inr (), logging (ErrorInvalidDays (days_to_look_back_str cfg)) w1)
                 | Some days_to_look_back \<Rightarrow>
                     (case authenticate_gmail w1 of
                        (Inl e, w2) \<Rightarrow> (Inl e, w2)
                      | (Inr service, w2) \<Rightarrow> label_emails sender_labels days_to_look_back w2))))"

subsection \<open>What a run sent and wrote\<close>

definition issued :: "world \<Rightarrow> world \<Rightarrow> api_call list" where
  "issued w w' = drop (length (calls w)) (calls w')"

definition written :: "world \<Rightarrow> world \<Rightarrow> log_entry list" where
  "written w w' = drop (length (logged w)) (logged w')"

fun is_modify :: "api_call \<Rightarrow> bool" where
  "is_modify (MessagesModify m b) = True"
| "is_modify c = False"

fun is_get :: "api_call \<Rightarrow> bool" where
  "is_get (MessagesGet m f) = True"
| "is_get c = False"

fun is_applied :: "log_entry \<Rightarrow> bool" where
  "is_applied (InfoLabeled m s n) = True"
| "is_applied e = False"

fun is_skipped :: "log_entry \<Rightarrow> bool" where
  "is_skipped (InfoAlreadyLabeled m s n) = True"
| "is_skipped e = False"

definition applied :: "log_entry list \<Rightarrow> nat" where
  "applied es = length (filter is_applied es)"

definition skipped :: "log_entry list \<Rightarrow> nat" where
  "skipped es = length (filter is_skipped es)"

text \<open>
  \<open>evolves w w'\<close>: \<open>w'\<close> can follow \<open>w\<close> in a run. Requests and log lines are only
  appended, the search results and the clock are the same, a label name that resolved
  keeps its id, and no message loses a label.
\<close>

definition evolves :: "world \<Rightarrow> world \<Rightarrow> bool" where
  "evolves w w' \<longleftrightarrow>
     (\<exists>cs. calls w' = calls w @ cs) \<and> (\<exists>es. logged w' = logged w @ es) \<and>
     search w' = search w \<and> new_label_id w' = new_label_id w \<and>
     today w' = today w \<and> strftime w' = strftime w \<and>
     label_map (labels w) \<subseteq>\<^sub>m label_map (labels w') \<and>
     (\<forall>m. set (existing w m) \<subseteq> set (existing w' m))"

definition fault_free :: "world \<Rightarrow> bool" where
  "fault_free w \<longleftrightarrow> True \<notin> set (faults w)"

text \<open>
  \<open>settled w d (s, n)\<close>: in the mailbox \<open>w\<close> the rule has nothing left to do. Its label
  name resolves, and every message of its search result carries the label's id.
\<close>

definition settled :: "world \<Rightarrow> int \<Rightarrow> string \<times> string \<Rightarrow> bool" where
  "settled w d rule \<longleftrightarrow>
     (case rule of (s, n) \<Rightarrow>
        \<forall>dt. date_n_days_ago w d = Some dt \<longrightarrow>
          (\<exists>lid. label_map (labels w) n = Some lid \<and>
             (lid \<noteq> [] \<longrightarrow>
                (\<forall>m \<in> set (or_default (messages (search w (query_for s dt) None)) []).
                   lid \<in> set (existing w m)))))"

definition with_faults :: "bool list \<Rightarrow> world \<Rightarrow> world" where
  "with_faults fs w = w\<lparr>faults := fs\<rparr>"

text \<open>
  \<open>carries w m n\<close>: the label name \<open>n\<close> resolves in \<open>w\<close>, and the message \<open>m\<close> carries its
  id. \<open>handled m n e\<close>: the log line \<open>e\<close> says that \<open>m\<close> was labeled, or already labeled,
  with \<open>n\<close>.
\<close>

definition carries :: "world \<Rightarrow> string \<Rightarrow> string \<Rightarrow> bool" where
  "carries w m n \<longleftrightarrow> (\<exists>l. label_map (labels w) n = Some l \<and> l \<in> set (existing w m))"

fun handled :: "string \<Rightarrow> string \<Rightarrow> log_entry \<Rightarrow> bool" where
  "handled m n (InfoLabeled m' s' n') = (m' = m \<and> n' = n)"
| "handled m n (InfoAlreadyLabeled m' s' n') = (m' = m \<and> n' = n)"
| "handled m n e = False"

subsection \<open>A mailbox to run the script on\<close>

text \<open>
  The clock stands at 4 November 2026 (ordinal 739924). The label \<open>Alerts\<close> exists, the
  label \<open>News\<close> does not. Of the two messages from the first sender one carries the
  label already.
\<close>

definition inbox :: world where
  "inbox =
     \<lparr>labels = [(''INBOX'', ''INBOX''), (''Alerts'', ''Label_1'')],
      new_label_id = (\<lambda>ls name. ''Label_'' @ name),
      label_ids = (\<lambda>m. if m = ''m1'' then Some [''INBOX'', ''Label_1'']
                        else if m = ''m2'' then Some [''INBOX'']
                        else if m = ''m3'' then Some [''INBOX'']
                        else None),
      search = (\<lambda>q t. if q = ''from:alerts@example.com after:2026/10/28'' \<and> t = None
                          then \<lparr>messages = Some [''m1'', ''m2''], nextPageToken = None\<rparr>
                        else if q = ''from:news@example.com after:2026/10/28'' \<and> t = None
                          then \<lparr>messages = Some [''m3''], nextPageToken = None\<rparr>
                        else \<lparr>messages = None, nextPageToken = None\<rparr>),
      faults = [],
      today = 739924,
      strftime = (\<lambda>d. if d = 739917 then ''2026/10/28''
                       else if d = 739894 then ''2026/10/05''
                       else if d = 739927 then ''2026/11/07''
                       else ''2026/11/04''),
      token_file = Some \<lparr>valid = True, expired = False, refresh_token = True\<rparr>,
      calls = [],
      logged = []\<rparr>"

definition two_rules :: "(string \<times> string) list" where
  "two_rules = [(''alerts@example.com'', ''Alerts''), (''news@example.com'', ''News'')]"

definition shared_label_rules :: "(string \<times> string) list" where
  "shared_label_rules = [(''alerts@example.com'', ''Alerts''), (''news@example.com'', ''Alerts'')]"

text \<open>The same mailbox when the service fails the sixth request.\<close>

definition aborting_inbox :: world where
  "aborting_inbox = with_faults [False, False, False, False, False, True] inbox"

text \<open>The same mailbox when the search result of the first sender has a second page.\<close>

definition paged_inbox :: world where
  "paged_inbox =
     inbox\<lparr>search := (\<lambda>q t.
        if q = ''from:alerts@example.com after:2026/10/28'' \<and> t = None
          then \<lparr>messages = Some [''m1'', ''m2''], nextPageToken = Some ''page2''\<rparr>
        else if q = ''from:alerts@example.com after:2026/10/28'' \<and> t = Some ''page2''
          then \<lparr>messages = Some [''m4''], nextPageToken = None\<rparr>
        else \<lparr>messages = None, nextPageToken = None\<rparr>)\<rparr>"

definition negative_days :: config where
  "negative_days =
     \<lparr>SENDER_LABELS = Some [(''alerts@example.com'', ''Alerts'')],
      DAYS_TO_LOOK_BACK = Some [(''Days'', ''-3'')]\<rparr>"


definition no_days :: config where
  "no_days =
     \<lparr>SENDER_LABELS = Some [(''alerts@example.com'', ''Alerts'')], DAYS_TO_LOOK_BACK = None\<rparr>"

section \<open>Properties\<close>

subsection \<open>Fields after a request and after a log line\<close>

lemma sent_fields [simp]:
  "labels (sent c w) = labels w"
  "new_label_id (sent c w) = new_label_id w"
  "label_ids (sent c w) = label_ids w"
  "search (sent c w) = search w"
  "faults (sent c w) = tl (faults w)"
  "today (sent c w) = today w"
  "strftime (sent c w) = strftime w"
  "token_file (sent c w) = token_file w"
  "calls (sent c w) = calls w @ [c]"
  "logged (sent c w) = logged w"
  by (simp_all add: sent_def)

lemma logging_fields [simp]:
  "labels (logging e w) = labels w"
  "new_label_id (logging e w) = new_label_id w"
  "label_ids (logging e w) = label_ids w"
  "search (logging e w) = search w"
  "faults (logging e w) = faults w"
  "today (logging e w) = today w"
  "strftime (logging e w) = strftime w"
  "token_file (logging e w) = token_file w"
  "calls (logging e w) = calls w"
  "logged (logging e w) = logged w @ [e]"
  by (simp_all add: logging_def)

lemma add_label_fields [simp]:
  "labels (add_label name lid w) = labels w @ [(name, lid)]"
  "new_label_id (add_label name lid w) = new_label_id w"
  "label_ids (add_label name lid w) = label_ids w"
  "search (add_label name lid w) = search w"
  "faults (add_label name lid w) = faults w"
  "today (add_label name lid w) = today w"
  "strftime (add_label name lid w) = strftime w"
  "token_file (add_label name lid w) = token_file w"
  "calls (add_label name lid w) = calls w"
  "logged (add_label name lid w) = logged w"
  by (simp_all add: add_label_def)

lemma store_labels_fields [simp]:
  "labels (store_labels m ls w) = labels w"
  "new_label_id (store_labels m ls w) = new_label_id w"
  "label_ids (store_labels m ls w) = (label_ids w)(m := Some ls)"
  "search (store_labels m ls w) = search w"
  "faults (store_labels m ls w) = faults w"
  "today (store_labels m ls w) = today w"
  "strftime (store_labels m ls w) = strftime w"
  "token_file (store_labels m ls w) = token_file w"
  "calls (store_labels m ls w) = calls w"
  "logged (store_labels m ls w) = logged w"
  by (simp_all add: store_labels_def)

lemma or_default_simps [simp]:
  "or_default None d = d"
  "or_default (Some x) d = x"
  by (simp_all add: or_default_def)

lemma existing_frame [simp]:
  "existing (add_label name lid w) = existing w"
  "existing (store_labels m ls w) = (existing w)(m := ls)"
  "existing (sent c w) = existing w"
  "existing (logging e w) = existing w"
  by (simp_all add: existing_def fun_eq_iff)

lemma faulty_frame [simp]:
  "faulty (logging e w) = faulty w"
  "faulty (add_label name lid w) = faulty w"
  "faulty (store_labels m ls w) = faulty w"
  by (simp_all add: faulty_def)

lemma date_frame [simp]:
  "date_n_days_ago (sent c w) d = date_n_days_ago w d"
  "date_n_days_ago (logging e w) d = date_n_days_ago w d"
  "date_n_days_ago (add_label name lid w) d = date_n_days_ago w d"
  "date_n_days_ago (store_labels m ls w) d = date_n_days_ago w d"
  by (simp_all add: date_n_days_ago_def)

text \<open>The equations that evaluate a run on a given mailbox.\<close>

lemmas run_defs =
  label_emails_def label_rules_def label_rule_def label_messages_def label_message_def
  get_or_create_label_def labels_list_def labels_create_def messages_list_def
  messages_get_def messages_modify_def date_n_days_ago_def query_for_def
  faulty_def sent_def logging_def add_label_def store_labels_def existing_def
  label_map_def modified_def field_def or_default_def Let_def

subsection \<open>Runs compose\<close>

lemma evolves_refl [simp]: "evolves w w"
  by (simp add: evolves_def)

lemma evolves_trans: "evolves w w1 \<Longrightarrow> evolves w1 w2 \<Longrightarrow> evolves w w2"
  unfolding evolves_def
  by (auto intro: map_le_trans)

lemma evolves_sent [simp]: "evolves w (sent c w)"
  by (simp add: evolves_def)

lemma evolves_logging [simp]: "evolves w (logging e w)"
  by (simp add: evolves_def)

lemma evolves_sent_trans: "evolves w0 w \<Longrightarrow> evolves w0 (sent c w)"
  by (rule evolves_trans[OF _ evolves_sent])

lemma evolves_logging_trans: "evolves w0 w \<Longrightarrow> evolves w0 (logging e w)"
  by (rule evolves_trans[OF _ evolves_logging])

lemma evolves_date: "evolves w w' \<Longrightarrow> date_n_days_ago w' d = date_n_days_ago w d"
  by (simp add: evolves_def date_n_days_ago_def)

lemma issued_refl [simp]: "issued w w = []"
  by (simp add: issued_def)

lemma written_refl [simp]: "written w w = []"
  by (simp add: written_def)

lemma issued_trans:
  "evolves w w1 \<Longrightarrow> evolves w1 w2 \<Longrightarrow> issued w w2 = issued w w1 @ issued w1 w2"
  by (auto simp add: evolves_def issued_def)

lemma written_trans:
  "evolves w w1 \<Longrightarrow> evolves w1 w2 \<Longrightarrow> written w w2 = written w w1 @ written w1 w2"
  by (auto simp add: evolves_def written_def)

lemma issued_sent [simp]: "issued w (sent c w) = [c]"
  by (simp add: issued_def)

lemma issued_logging [simp]: "issued w (logging e w) = []"
  by (simp add: issued_def)

lemma written_sent [simp]: "written w (sent c w) = []"
  by (simp add: written_def)

lemma written_logging [simp]: "written w (logging e w) = [e]"
  by (simp add: written_def)

lemma issued_step:
  "evolves w w1 \<Longrightarrow> issued w (sent c w1) = issued w w1 @ [c]"
  "issued w (logging e w1) = issued w w1"
  "issued w (add_label name lid w1) = issued w w1"
  "issued w (store_labels m ls w1) = issued w w1"
  by (auto simp add: evolves_def issued_def)

lemma written_step:
  "written w (sent c w1) = written w w1"
  "evolves w w1 \<Longrightarrow> written w (logging e w1) = written w w1 @ [e]"
  "written w (add_label name lid w1) = written w w1"
  "written w (store_labels m ls w1) = written w w1"
  by (auto simp add: evolves_def written_def)

lemma evolves_store_labels:
  "evolves w0 w \<Longrightarrow> set (existing w m) \<subseteq> set ls \<Longrightarrow> evolves w0 (store_labels m ls w)"
  unfolding evolves_def by (auto simp add: subset_iff)

lemma label_map_append:
  "label_map (ls @ [(name, lid)]) = (label_map ls)(name \<mapsto> lid)"
  by (simp add: label_map_def)

lemma evolves_add_label:
  "evolves w0 w \<Longrightarrow> label_map (labels w) name = None \<Longrightarrow> evolves w0 (add_label name lid w)"
  unfolding evolves_def
  by (auto simp add: label_map_append map_le_def dom_def)

subsection \<open>Loops\<close>

lemma for_each_invariant:
  assumes "for_each body xs w = (r, w')"
    and "P w"
    and "\<And>x v r v'. x \<in> set xs \<Longrightarrow> P v \<Longrightarrow> body x v = (r, v') \<Longrightarrow> P v'"
  shows "P w'"
  using assms
proof (induction xs arbitrary: w)
  case Nil
  then show ?case by simp
next
  case (Cons x xs)
  obtain r1 w1 where b: "body x w = (r1, w1)" by (cases "body x w")
  have p1: "P w1" using Cons.prems(3)[OF _ Cons.prems(2) b] by simp
  show ?case
  proof (cases r1)
    case (Inl e)
    with Cons.prems(1) b have "w' = w1" by simp
    with p1 show ?thesis by simp
  next
    case (Inr u)
    with Cons.prems(1) b have "for_each body xs w1 = (r, w')" by simp
    show ?thesis
    proof (rule Cons.IH[OF \<open>for_each body xs w1 = (r, w')\<close> p1])
      fix y v r v'
      assume "y \<in> set xs" "P v" "body y v = (r, v')"
      then show "P v'" using Cons.prems(3)[of y v r v'] by simp
    qed
  qed
qed

lemma for_each_evolves:
  assumes "for_each body xs w = (r, w')"
    and "\<And>x v r v'. x \<in> set xs \<Longrightarrow> body x v = (r, v') \<Longrightarrow> evolves v v'"
  shows "evolves w w'"
  by (rule for_each_invariant[OF assms(1), where P = "evolves w"])
     (auto intro: evolves_trans assms(2))

lemma for_each_append:
  "for_each body (xs @ ys) w =
     (case for_each body xs w of
        (Inl e, w1) \<Rightarrow> (Inl e, w1)
      | (Inr u, w1) \<Rightarrow> for_each body ys w1)"
  by (induction xs arbitrary: w) (auto split: prod.splits sum.splits)

subsection \<open>One message\<close>

lemma modified_add [simp]:
  "set (modified [(''addLabelIds'', [l])] old) = insert l (set old)"
  by (auto simp add: modified_def field_def)

lemma label_message_unfold:
  "label_message label_id s n m w =
     (if faulty w then (Inl HttpError, sent (MessagesGet m ''metadata'') w)
      else if label_id \<in> set (existing w m) then
        (Inr (), logging (InfoAlreadyLabeled m s n) (sent (MessagesGet m ''metadata'') w))
      else if faulty (sent (MessagesGet m ''metadata'') w) then
        (Inl HttpError,
         sent (MessagesModify m [(''addLabelIds'', [label_id])]) (sent (MessagesGet m ''metadata'') w))
      else
        (Inr (),
         logging (InfoLabeled m s n)
           (store_labels m (modified [(''addLabelIds'', [label_id])] (existing w m))
              (sent (MessagesModify m [(''addLabelIds'', [label_id])])
                 (sent (MessagesGet m ''metadata'') w)))))"
  by (simp add: label_message_def messages_get_def messages_modify_def existing_def Let_def)

lemma label_message_evolves:
  "label_message label_id s n m w = (r, w') \<Longrightarrow> evolves w w'"
  unfolding label_message_unfold
  by (auto split: if_splits
      intro!: evolves_logging_trans evolves_sent_trans evolves_store_labels)

lemma label_message_keeps:
  assumes "label_id \<in> set (existing w m)" and "label_message label_id s n a w = (r, w')"
  shows "label_id \<in> set (existing w' m)"
    and "MessagesModify m b \<notin> set (issued w w')"
    and "InfoLabeled m s n \<notin> set (written w w')"
    and "r = Inr () \<Longrightarrow>
         count_list (written w w') (InfoAlreadyLabeled m s n) = (if a = m then 1 else 0)"
proof -
  have ev: "evolves w w'" using assms(2) by (rule label_message_evolves)
  then show "label_id \<in> set (existing w' m)" using assms(1) by (auto simp add: evolves_def)
  have am: "a = m \<Longrightarrow> label_id \<in> set (existing w a)" using assms(1) by simp
  show "MessagesModify m b \<notin> set (issued w w')"
    using assms(2) am unfolding label_message_unfold
    by (auto split: if_splits simp add: issued_step)
  show "InfoLabeled m s n \<notin> set (written w w')"
    using assms(2) am unfolding label_message_unfold
    by (auto split: if_splits simp add: written_step written_def)
  show "count_list (written w w') (InfoAlreadyLabeled m s n) = (if a = m then 1 else 0)"
    if "r = Inr ()"
    using assms(2) am that unfolding label_message_unfold
    by (auto split: if_splits simp add: written_step written_def)
qed

lemma label_messages_evolves:
  "label_messages label_id s n ms w = (r, w') \<Longrightarrow> evolves w w'"
  unfolding label_messages_def
  by (erule for_each_evolves) (rule label_message_evolves)

lemma label_messages_keeps:
  assumes "label_id \<in> set (existing w m)" and "label_messages label_id s n ms w = (r, w')"
  shows "(\<forall>b. MessagesModify m b \<notin> set (issued w w')) \<and>
         InfoLabeled m s n \<notin> set (written w w') \<and>
         (r = Inr () \<longrightarrow>
            count_list (written w w') (InfoAlreadyLabeled m s n) = count_list ms m)"
  using assms
proof (induction ms arbitrary: w)
  case Nil
  then show ?case by (simp add: label_messages_def)
next
  case (Cons a ms)
  obtain r1 w1 where step: "label_message label_id s n a w = (r1, w1)"
    by (cases "label_message label_id s n a w")
  note k = label_message_keeps[OF Cons.prems(1) step]
  have ev1: "evolves w w1" using step by (rule label_message_evolves)
  show ?case
  proof (cases r1)
    case (Inl e)
    with Cons.prems(2) step have "w' = w1" "r = Inl e"
      by (simp_all add: label_messages_def)
    with k show ?thesis by simp
  next
    case (Inr u)
    with Cons.prems(2) step have rest: "label_messages label_id s n ms w1 = (r, w')"
      by (simp add: label_messages_def)
    have ev2: "evolves w1 w'" using rest by (rule label_messages_evolves)
    from Cons.IH[OF k(1) rest] k(2,3) k(4)[OF Inr[simplified]]
    show ?thesis
      by (auto simp add: issued_trans[OF ev1 ev2] written_trans[OF ev1 ev2])
  qed
qed

text \<open>
  C1. A message whose \<open>labelIds\<close> already hold the rule's label id: the loop body sends
  the \<open>get\<close> and nothing else, and logs that the message already has the label. In the
  whole loop over a search result no \<open>modify\<close> is sent for such a message, it is never
  logged as labeled, and when the loop runs to its end it is logged as already labeled
  once for each time it occurs in the result.
\<close>

theorem already_labelled_is_skipped:
  assumes "label_id \<in> set (existing w m)"
  shows "label_message label_id s n m w =
           (if faulty w then (Inl HttpError, sent (MessagesGet m ''metadata'') w)
            else (Inr (), logging (InfoAlreadyLabeled m s n) (sent (MessagesGet m ''metadata'') w)))
       \<and> (\<forall>b. MessagesModify m b \<notin> set (issued w (snd (label_messages label_id s n ms w))))
       \<and> InfoLabeled m s n \<notin> set (written w (snd (label_messages label_id s n ms w)))
       \<and> (fst (label_messages label_id s n ms w) = Inr () \<longrightarrow>
            count_list (written w (snd (label_messages label_id s n ms w)))
              (InfoAlreadyLabeled m s n) = count_list ms m)"
proof -
  obtain r w' where run: "label_messages label_id s n ms w = (r, w')"
    by (cases "label_messages label_id s n ms w")
  from label_messages_keeps[OF assms run] run assms show ?thesis
    by (simp add: label_message_unfold)
qed

theorem already_labelled_is_skipped_witness:
  "''Label_1'' \<in> set (existing inbox ''m1'') \<and>
   fst (label_messages ''Label_1'' ''alerts@example.com'' ''Alerts'' [''m1'', ''m2''] inbox) = Inr () \<and>
   (\<forall>b. MessagesModify ''m1'' b \<notin> set (issued inbox
      (snd (label_messages ''Label_1'' ''alerts@example.com'' ''Alerts'' [''m1'', ''m2''] inbox)))) \<and>
   count_list (written inbox
      (snd (label_messages ''Label_1'' ''alerts@example.com'' ''Alerts'' [''m1'', ''m2''] inbox)))
      (InfoAlreadyLabeled ''m1'' ''alerts@example.com'' ''Alerts'') = 1"
proof -
  have h: "''Label_1'' \<in> set (existing inbox ''m1'')"
    by (simp add: inbox_def existing_def)
  have run: "fst (label_messages ''Label_1'' ''alerts@example.com'' ''Alerts'' [''m1'', ''m2''] inbox)
               = Inr ()"
    by (simp add: inbox_def run_defs)
  from already_labelled_is_skipped[OF h, of "''alerts@example.com''" "''Alerts''" "[''m1'', ''m2'']"]
    run h
  show ?thesis by simp
qed

subsection \<open>Resolving a label\<close>

lemma get_or_create_label_unfold:
  "get_or_create_label name w =
     (if faulty w then (Inl HttpError, logging (ErrorLabel name) (sent LabelsList w))
      else case label_map (labels w) name of
        Some lid \<Rightarrow> (Inr lid, logging (InfoLabelExists name) (sent LabelsList w))
      | None \<Rightarrow>
          (let body = [(''labelListVisibility'', ''labelShow''),
                       (''messageListVisibility'', ''show''), (''name'', name)];
               w2 = logging (InfoLabelNotFound name) (sent LabelsList w)
           in if faulty w2 then (Inl HttpError, logging (ErrorLabel name) (sent (LabelsCreate body) w2))
              else (Inr (new_label_id w (labels w) name),
                    logging (InfoLabelCreated name)
                      (add_label name (new_label_id w (labels w) name)
                         (sent (LabelsCreate body) w2)))))"
  by (simp add: get_or_create_label_def labels_list_def labels_create_def Let_def
      split: option.splits)

lemma get_or_create_label_cases [consumes 1, case_names list_failed found create_failed created]:
  assumes "get_or_create_label name w = (r, w')"
  obtains
    (list_failed) "faulty w" "r = Inl HttpError"
      "w' = logging (ErrorLabel name) (sent LabelsList w)"
  | (found) lid where "\<not> faulty w" "label_map (labels w) name = Some lid" "r = Inr lid"
      "w' = logging (InfoLabelExists name) (sent LabelsList w)"
  | (create_failed) body where "\<not> faulty w" "label_map (labels w) name = None"
      "faulty (sent LabelsList w)" "r = Inl HttpError"
      "w' = logging (ErrorLabel name)
              (sent (LabelsCreate body) (logging (InfoLabelNotFound name) (sent LabelsList w)))"
  | (created) body lid where "\<not> faulty w" "label_map (labels w) name = None"
      "\<not> faulty (sent LabelsList w)" "r = Inr lid"
      "w' = logging (InfoLabelCreated name)
              (add_label name lid
                 (sent (LabelsCreate body) (logging (InfoLabelNotFound name) (sent LabelsList w))))"
  using assms unfolding get_or_create_label_unfold
  by (auto simp add: Let_def split: if_splits option.splits)

lemma get_or_create_label_evolves:
  "get_or_create_label name w = (r, w') \<Longrightarrow> evolves w w'"
  by (cases rule: get_or_create_label_cases)
     (auto intro!: evolves_logging_trans evolves_sent_trans evolves_add_label)

lemma get_or_create_label_existing:
  "get_or_create_label name w = (r, w') \<Longrightarrow> existing w' = existing w"
  by (cases rule: get_or_create_label_cases) auto

lemma get_or_create_label_resolved:
  "get_or_create_label name w = (Inr lid, w') \<Longrightarrow> label_map (labels w') name = Some lid"
  by (cases rule: get_or_create_label_cases) (auto simp add: label_map_append)

lemma get_or_create_label_error:
  "get_or_create_label name w = (Inl e, w') \<Longrightarrow> e = HttpError"
  by (cases rule: get_or_create_label_cases) auto

lemma get_or_create_label_known:
  assumes "get_or_create_label name w = (r, w')" and "label_map (labels w) name = Some lid"
  shows "labels w' = labels w \<and> (r = Inr lid \<or> r = Inl HttpError) \<and>
         (\<forall>b. LabelsCreate b \<notin> set (issued w w'))"
  using assms
  by (cases rule: get_or_create_label_cases) (simp_all add: issued_def)

lemma get_or_create_label_issued:
  assumes "get_or_create_label name w = (r, w')"
  shows "\<exists>cs. issued w w' = LabelsList # cs \<and> (\<forall>c \<in> set cs. \<exists>b. c = LabelsCreate b)"
  using assms
  by (cases rule: get_or_create_label_cases) (simp_all add: issued_def)

lemma get_or_create_label_written:
  assumes "get_or_create_label name w = (r, w')"
  shows "applied (written w w') = 0 \<and> skipped (written w w') = 0"
  using assms
  by (cases rule: get_or_create_label_cases)
     (simp_all add: written_def applied_def skipped_def)

subsection \<open>One rule\<close>

lemma label_rule_cases
  [consumes 1, case_names resolve_failed empty_id overflow search_failed no_messages messages]:
  assumes "label_rule d (s, n) w = (r, w')"
  obtains
    (resolve_failed) e where "get_or_create_label n w = (Inl e, w')" "r = Inl e"
  | (empty_id) w1 where "get_or_create_label n w = (Inr [], w1)"
      "w' = logging (WarningLabelMissing n s) w1" "r = Inr ()"
  | (overflow) lid where "get_or_create_label n w = (Inr lid, w')" "lid \<noteq> []"
      "date_n_days_ago w d = None" "r = Inl OverflowError"
  | (search_failed) lid w1 dt where "get_or_create_label n w = (Inr lid, w1)" "lid \<noteq> []"
      "date_n_days_ago w d = Some dt" "faulty w1" "r = Inl HttpError"
      "w' = sent (MessagesList (query_for s dt) None) w1"
  | (no_messages) lid w1 dt where "get_or_create_label n w = (Inr lid, w1)" "lid \<noteq> []"
      "date_n_days_ago w d = Some dt" "\<not> faulty w1"
      "or_default (messages (search w (query_for s dt) None)) [] = []" "r = Inr ()"
      "w' = logging (InfoNoEmails s d) (sent (MessagesList (query_for s dt) None) w1)"
  | (messages) lid w1 dt where "get_or_create_label n w = (Inr lid, w1)" "lid \<noteq> []"
      "date_n_days_ago w d = Some dt" "\<not> faulty w1"
      "or_default (messages (search w (query_for s dt) None)) [] \<noteq> []"
      "label_messages lid s n (or_default (messages (search w (query_for s dt) None)) [])
         (sent (MessagesList (query_for s dt) None) w1) = (r, w')"
proof -
  obtain r1 w1 where g: "get_or_create_label n w = (r1, w1)"
    by (cases "get_or_create_label n w")
  have ev: "evolves w w1" using g by (rule get_or_create_label_evolves)
  then have dt: "date_n_days_ago w1 d = date_n_days_ago w d" by (rule evolves_date)
  have se: "search w1 = search w" using ev by (simp add: evolves_def)
  show thesis
  proof (cases r1)
    case (Inl e)
    with assms g show thesis by (intro resolve_failed[of e]) (simp_all add: label_rule_def)
  next
    case (Inr lid)
    show thesis
    proof (cases "lid = []")
      case True
      with assms g Inr show thesis by (intro empty_id[of w1]) (simp_all add: label_rule_def)
    next
      case ne: False
      show thesis
      proof (cases "date_n_days_ago w d")
        case None
        with assms g Inr ne dt show thesis
          by (intro overflow[of lid]) (simp_all add: label_rule_def)
      next
        case (Some t)
        show thesis
        proof (cases "faulty w1")
          case True
          with assms g Inr ne dt Some show thesis
            by (intro search_failed[of lid w1 t]) (simp_all add: label_rule_def messages_list_def)
        next
          case nf: False
          show thesis
          proof (cases "or_default (messages (search w (query_for s t) None)) [] = []")
            case True
            with assms g Inr ne dt Some nf se show thesis
              by (intro no_messages[of lid w1 t])
                 (simp_all add: label_rule_def messages_list_def Let_def)
          next
            case False
            with assms g Inr ne dt Some nf se show thesis
              by (intro messages[of lid w1 t])
                 (simp_all add: label_rule_def messages_list_def Let_def)
          qed
        qed
      qed
    qed
  qed
qed

lemma label_rule_evolves:
  assumes "label_rule d rule w = (r, w')"
  shows "evolves w w'"
proof -
  obtain s n where rule: "rule = (s, n)" by (cases rule)
  from assms[unfolded rule] show ?thesis
  proof (cases rule: label_rule_cases)
    case (messages lid w1 dt)
    from messages(1) have "evolves w w1" by (rule get_or_create_label_evolves)
    then have "evolves w (sent (MessagesList (query_for s dt) None) w1)"
      by (rule evolves_sent_trans)
    then show ?thesis using label_messages_evolves[OF messages(6)] by (rule evolves_trans)
  qed (auto dest!: get_or_create_label_evolves intro: evolves_sent_trans evolves_logging_trans)
qed

lemma label_rules_evolves:
  "label_rules rules d w = (r, w') \<Longrightarrow> evolves w w'"
  unfolding label_rules_def
  by (erule for_each_evolves) (rule label_rule_evolves)

subsection \<open>Runs in which the service answers every request\<close>

lemma fault_free_not_faulty: "fault_free w \<Longrightarrow> \<not> faulty w"
  by (cases "faults w") (auto simp add: fault_free_def faulty_def)

lemma fault_free_frame [simp]:
  "fault_free w \<Longrightarrow> fault_free (sent c w)"
  "fault_free (logging e w) = fault_free w"
  "fault_free (add_label name lid w) = fault_free w"
  "fault_free (store_labels m ls w) = fault_free w"
  by (cases "faults w"; simp add: fault_free_def)+

lemma get_or_create_label_fault_free:
  assumes "get_or_create_label name w = (r, w')" and "fault_free w"
  shows "fault_free w' \<and> (\<exists>lid. r = Inr lid)"
  using assms
  by (cases rule: get_or_create_label_cases)
     (auto dest: fault_free_not_faulty fault_free_frame(1))

subsection \<open>Modify requests\<close>

lemma label_message_modifies:
  assumes "label_message label_id s n m w = (r, w')"
  shows "\<forall>c \<in> set (issued w w').
           is_modify c \<longrightarrow> c = MessagesModify m [(''addLabelIds'', [label_id])]"
    and "length (filter is_applied (written w w')) \<le> length (filter is_modify (issued w w'))"
  using assms unfolding label_message_unfold
  by (auto split: if_splits simp add: issued_def written_def)

lemma label_messages_modifies:
  assumes "label_messages label_id s n ms w = (r, w')"
  shows "\<forall>c \<in> set (issued w w'). is_modify c \<longrightarrow>
           (\<exists>m \<in> set ms. c = MessagesModify m [(''addLabelIds'', [label_id])])"
proof -
  let ?P = "\<lambda>v. evolves w v \<and> (\<forall>c \<in> set (issued w v). is_modify c \<longrightarrow>
           (\<exists>m \<in> set ms. c = MessagesModify m [(''addLabelIds'', [label_id])]))"
  have "?P w'"
  proof (rule for_each_invariant[OF assms[unfolded label_messages_def], where P = ?P])
    show "?P w" by simp
  next
    fix x v r v'
    assume x: "x \<in> set ms" and p: "?P v" and b: "label_message label_id s n x v = (r, v')"
    have ev: "evolves v v'" using b by (rule label_message_evolves)
    from p have "evolves w v" by simp
    from issued_trans[OF this ev] label_message_modifies(1)[OF b] p x
    show "?P v'" by (auto intro: evolves_trans[OF _ ev])
  qed
  then show ?thesis by simp
qed

lemma label_messages_applied:
  assumes "label_messages label_id s n ms w = (r, w')"
  shows "applied (written w w') \<le> length (filter is_modify (issued w w'))"
proof -
  let ?P = "\<lambda>v. evolves w v \<and>
     length (filter is_applied (written w v)) \<le> length (filter is_modify (issued w v))"
  have "?P w'"
  proof (rule for_each_invariant[OF assms[unfolded label_messages_def], where P = ?P])
    show "?P w" by simp
  next
    fix x v r v'
    assume p: "?P v" and b: "label_message label_id s n x v = (r, v')"
    have ev: "evolves v v'" using b by (rule label_message_evolves)
    from p have e0: "evolves w v" by simp
    from issued_trans[OF e0 ev] written_trans[OF e0 ev] label_message_modifies(2)[OF b] p
    show "?P v'" by (auto intro: evolves_trans[OF _ ev])
  qed
  then show ?thesis by (simp add: applied_def)
qed

lemma label_messages_all_present:
  assumes "\<forall>m \<in> set ms. label_id \<in> set (existing w m)"
    and "label_messages label_id s n ms w = (r, w')"
  shows "\<forall>c \<in> set (issued w w'). \<not> is_modify c"
proof
  fix c assume c: "c \<in> set (issued w w')"
  show "\<not> is_modify c"
  proof
    assume "is_modify c"
    with label_messages_modifies[OF assms(2)] c obtain m
      where m: "m \<in> set ms" "c = MessagesModify m [(''addLabelIds'', [label_id])]" by blast
    from assms(1) m(1) have "label_id \<in> set (existing w m)" by simp
    from label_messages_keeps[OF this assms(2)] c m(2) show False by blast
  qed
qed

lemma label_message_calls:
  assumes "label_message label_id s n m w = (r, w')"
  shows "\<forall>c \<in> set (issued w w'). is_get c \<or> is_modify c"
  using assms unfolding label_message_unfold
  by (auto split: if_splits simp add: issued_def)

lemma label_messages_calls:
  assumes "label_messages label_id s n ms w = (r, w')"
  shows "\<forall>c \<in> set (issued w w'). is_get c \<or> is_modify c"
proof -
  let ?P = "\<lambda>v. evolves w v \<and> (\<forall>c \<in> set (issued w v). is_get c \<or> is_modify c)"
  have "?P w'"
  proof (rule for_each_invariant[OF assms[unfolded label_messages_def], where P = ?P])
    show "?P w" by simp
  next
    fix x v r v'
    assume p: "?P v" and b: "label_message label_id s n x v = (r, v')"
    have ev: "evolves v v'" using b by (rule label_message_evolves)
    from p have e0: "evolves w v" by simp
    from issued_trans[OF e0 ev] label_message_calls[OF b] p
    show "?P v'" by (auto intro: evolves_trans[OF _ ev])
  qed
  then show ?thesis by simp
qed

lemma get_or_create_label_calls:
  assumes "get_or_create_label name w = (r, w')"
  shows "(\<forall>c \<in> set (issued w w'). \<not> is_get c \<and> \<not> is_modify c) \<and>
         count_list (issued w w') LabelsList = 1"
  using assms
  by (cases rule: get_or_create_label_cases) (simp_all add: issued_def)

text \<open>The requests and log lines of a rule whose search found messages.\<close>

lemma label_rule_messages_split:
  assumes g: "get_or_create_label n w = (Inr lid, w1)"
    and lm: "label_messages lid s n ms (sent c w1) = (r, w')"
  shows "issued w w' = issued w w1 @ c # issued (sent c w1) w'"
    and "written w w' = written w w1 @ written (sent c w1) w'"
    and "evolves w1 w'"
proof -
  have e1: "evolves w w1" using g by (rule get_or_create_label_evolves)
  have e2: "evolves (sent c w1) w'" using lm by (rule label_messages_evolves)
  have e12: "evolves w (sent c w1)" using e1 by (rule evolves_sent_trans)
  show "issued w w' = issued w w1 @ c # issued (sent c w1) w'"
    using issued_trans[OF e12 e2] issued_step(1)[OF e1] by simp
  show "written w w' = written w w1 @ written (sent c w1) w'"
    using written_trans[OF e12 e2] written_step(1) by simp
  show "evolves w1 w'" using evolves_trans[OF evolves_sent e2] .
qed

lemma evolves_resolved:
  "evolves w w' \<Longrightarrow> label_map (labels w) n = Some l \<Longrightarrow> label_map (labels w') n = Some l"
  by (auto simp add: evolves_def map_le_def dom_def)

lemma label_rule_runs
  [consumes 1, case_names resolve_failed empty_id overflow search_failed no_messages messages]:
  assumes "label_rule d (s, n) w = (r, w')"
  obtains
    (resolve_failed) "get_or_create_label n w = (Inl HttpError, w')" "r = Inl HttpError"
  | (empty_id) w1 where "get_or_create_label n w = (Inr [], w1)" "r = Inr ()"
      "issued w w' = issued w w1" "written w w' = written w w1 @ [WarningLabelMissing n s]"
      "existing w' = existing w" "evolves w1 w'" "fault_free w1 \<longrightarrow> fault_free w'"
  | (overflow) lid where "get_or_create_label n w = (Inr lid, w')" "lid \<noteq> []"
      "date_n_days_ago w d = None" "r = Inl OverflowError"
  | (search_failed) lid w1 dt where "get_or_create_label n w = (Inr lid, w1)" "lid \<noteq> []"
      "date_n_days_ago w d = Some dt" "faulty w1" "r = Inl HttpError"
      "issued w w' = issued w w1 @ [MessagesList (query_for s dt) None]"
      "written w w' = written w w1" "existing w' = existing w"
  | (no_messages) lid w1 dt where "get_or_create_label n w = (Inr lid, w1)" "lid \<noteq> []"
      "date_n_days_ago w d = Some dt" "\<not> faulty w1"
      "or_default (messages (search w (query_for s dt) None)) [] = []" "r = Inr ()"
      "issued w w' = issued w w1 @ [MessagesList (query_for s dt) None]"
      "written w w' = written w w1 @ [InfoNoEmails s d]"
      "existing w' = existing w" "evolves w1 w'" "fault_free w1 \<longrightarrow> fault_free w'"
  | (messages) lid w1 dt where "get_or_create_label n w = (Inr lid, w1)" "lid \<noteq> []"
      "date_n_days_ago w d = Some dt" "\<not> faulty w1"
      "or_default (messages (search w (query_for s dt) None)) [] \<noteq> []"
      "label_messages lid s n (or_default (messages (search w (query_for s dt) None)) [])
         (sent (MessagesList (query_for s dt) None) w1) = (r, w')"
      "issued w w' = issued w w1 @ MessagesList (query_for s dt) None
                       # issued (sent (MessagesList (query_for s dt) None) w1) w'"
      "written w w' = written w w1 @ written (sent (MessagesList (query_for s dt) None) w1) w'"
      "evolves w1 w'"
  using assms
proof (cases rule: label_rule_cases)
  case (resolve_failed e)
  with get_or_create_label_error[of n w e w'] that(1) show ?thesis by simp
next
  case (empty_id w1)
  from empty_id(1) have "evolves w w1" by (rule get_or_create_label_evolves)
  with empty_id get_or_create_label_existing[OF empty_id(1)] show ?thesis
    by (intro that(2)[of w1]) (simp_all add: issued_step written_step evolves_logging_trans)
next
  case (overflow lid)
  then show ?thesis by (intro that(3)[of lid])
next
  case (search_failed lid w1 dt)
  from search_failed(1) have "evolves w w1" by (rule get_or_create_label_evolves)
  with search_failed get_or_create_label_existing[OF search_failed(1)] show ?thesis
    by (intro that(4)[of lid w1 dt]) (simp_all add: issued_step written_step)
next
  case (no_messages lid w1 dt)
  from no_messages(1) have "evolves w w1" by (rule get_or_create_label_evolves)
  with no_messages get_or_create_label_existing[OF no_messages(1)] show ?thesis
    by (intro that(5)[of lid w1 dt])
       (simp_all add: issued_step written_step evolves_sent_trans evolves_logging_trans)
next
  case (messages lid w1 dt)
  with label_rule_messages_split[OF messages(1,6)] show ?thesis
    by (intro that(6)[of lid w1 dt])
qed

lemma label_rule_modifies:
  assumes "label_rule d (s, n) w = (r, w')"
  shows "\<forall>c \<in> set (issued w w'). is_modify c \<longrightarrow>
           (\<exists>m l. label_map (labels w') n = Some l \<and>
                  c = MessagesModify m [(''addLabelIds'', [l])])"
  using assms
proof (cases rule: label_rule_runs)
  case (messages lid w1 dt)
  have "label_map (labels w') n = Some lid"
    using get_or_create_label_resolved[OF messages(1)] messages(9)
    by (rule evolves_resolved[rotated])
  with label_messages_modifies[OF messages(6)] get_or_create_label_calls[OF messages(1)]
  show ?thesis unfolding messages(7) by auto
qed (insert get_or_create_label_calls[of n w], auto)

lemma label_rule_applied:
  assumes "label_rule d (s, n) w = (r, w')"
  shows "applied (written w w') \<le> length (filter is_modify (issued w w'))"
  using assms
proof (cases rule: label_rule_runs)
  case (messages lid w1 dt)
  with label_messages_applied[OF messages(6)] get_or_create_label_written[OF messages(1)]
  show ?thesis by (simp add: applied_def)
qed (insert get_or_create_label_written[of n w], auto simp add: applied_def)

lemma label_rule_lists:
  assumes "label_rule d (s, n) w = (r, w')"
  shows "count_list (issued w w') LabelsList = 1"
  using assms
proof (cases rule: label_rule_runs)
  case (messages lid w1 dt)
  from label_messages_calls[OF messages(6)]
  have "LabelsList \<notin> set (issued (sent (MessagesList (query_for s dt) None) w1) w')" by auto
  with get_or_create_label_calls[OF messages(1)] show ?thesis
    unfolding messages(7) by (simp add: count_list_0_iff)
qed (insert get_or_create_label_calls[of n w], auto)

subsection \<open>Idempotence\<close>

lemma with_faults_fields [simp]:
  "labels (with_faults fs w) = labels w"
  "new_label_id (with_faults fs w) = new_label_id w"
  "label_ids (with_faults fs w) = label_ids w"
  "search (with_faults fs w) = search w"
  "faults (with_faults fs w) = fs"
  "today (with_faults fs w) = today w"
  "strftime (with_faults fs w) = strftime w"
  "token_file (with_faults fs w) = token_file w"
  "calls (with_faults fs w) = calls w"
  "logged (with_faults fs w) = logged w"
  by (simp_all add: with_faults_def)

lemma settled_with_faults [simp]: "settled (with_faults fs w) d rule = settled w d rule"
  by (simp add: settled_def existing_def date_n_days_ago_def)

lemma issued_with_faults [simp]: "issued (with_faults fs w) w' = issued w w'"
  by (simp add: issued_def)

lemma written_with_faults [simp]: "written (with_faults fs w) w' = written w w'"
  by (simp add: written_def)

lemma settled_mono:
  assumes "evolves w w'" and "settled w d rule"
  shows "settled w' d rule"
proof -
  obtain s n where rule: "rule = (s, n)" by (cases rule)
  have dt: "date_n_days_ago w' d = date_n_days_ago w d" using assms(1) by (rule evolves_date)
  have se: "search w' = search w" using assms(1) by (simp add: evolves_def)
  have ex: "\<And>m l. l \<in> set (existing w m) \<Longrightarrow> l \<in> set (existing w' m)"
    using assms(1) by (auto simp add: evolves_def)
  show ?thesis
    using assms(2) evolves_resolved[OF assms(1)] ex
    unfolding settled_def rule dt se by fastforce
qed

lemma settled_no_date: "date_n_days_ago w d = None \<Longrightarrow> settled w d rule"
  by (cases rule) (simp add: settled_def)

text \<open>A settled rule sends no \<open>modify\<close>.\<close>

lemma label_rule_settled:
  assumes "label_rule d (s, n) w = (r, w')" and "settled w d (s, n)"
  shows "\<forall>c \<in> set (issued w w'). \<not> is_modify c"
  using assms(1)
proof (cases rule: label_rule_runs)
  case (messages lid w1 dt)
  let ?ms = "or_default (messages (search w (query_for s dt) None)) []"
  from assms(2) messages(3) obtain l where l: "label_map (labels w) n = Some l"
    and all: "l \<noteq> [] \<longrightarrow> (\<forall>m \<in> set ?ms. l \<in> set (existing w m))"
    by (auto simp add: settled_def)
  from get_or_create_label_known[OF messages(1) l] have "lid = l" by simp
  with all messages(2) get_or_create_label_existing[OF messages(1)]
  have "\<forall>m \<in> set ?ms. lid \<in> set (existing (sent (MessagesList (query_for s dt) None) w1) m)"
    by simp
  from label_messages_all_present[OF this messages(6)]
    get_or_create_label_calls[OF messages(1)]
  show ?thesis unfolding messages(7) by auto
qed (insert get_or_create_label_calls[of n w], auto)

lemma label_rules_settled:
  assumes "label_rules rules d w = (r, w')" and "\<forall>rule \<in> set rules. settled w d rule"
  shows "\<forall>c \<in> set (issued w w'). \<not> is_modify c"
proof -
  let ?P = "\<lambda>v. evolves w v \<and> (\<forall>c \<in> set (issued w v). \<not> is_modify c)"
  have "?P w'"
  proof (rule for_each_invariant[OF assms(1)[unfolded label_rules_def], where P = ?P])
    show "?P w" by simp
  next
    fix x v r v'
    assume x: "x \<in> set rules" and p: "?P v" and b: "label_rule d x v = (r, v')"
    obtain s n where xe: "x = (s, n)" by (cases x)
    have ev: "evolves v v'" using b by (rule label_rule_evolves)
    from p have e0: "evolves w v" by simp
    have "settled v d (s, n)" using assms(2) x xe e0 by (auto intro: settled_mono)
    from label_rule_settled[OF b[unfolded xe] this] issued_trans[OF e0 ev] p
    show "?P v'" by (auto intro: evolves_trans[OF _ ev])
  qed
  then show ?thesis by simp
qed

lemma label_rules_applied:
  assumes "label_rules rules d w = (r, w')"
  shows "applied (written w w') \<le> length (filter is_modify (issued w w'))"
proof -
  let ?P = "\<lambda>v. evolves w v \<and> applied (written w v) \<le> length (filter is_modify (issued w v))"
  have "?P w'"
  proof (rule for_each_invariant[OF assms(1)[unfolded label_rules_def], where P = ?P])
    show "?P w" by (simp add: applied_def)
  next
    fix x v r v'
    assume p: "?P v" and b: "label_rule d x v = (r, v')"
    obtain s n where xe: "x = (s, n)" by (cases x)
    have ev: "evolves v v'" using b by (rule label_rule_evolves)
    from p have e0: "evolves w v" by simp
    from label_rule_applied[OF b[unfolded xe]] issued_trans[OF e0 ev] written_trans[OF e0 ev] p
    show "?P v'" by (auto intro: evolves_trans[OF _ ev] simp add: applied_def)
  qed
  then show ?thesis by simp
qed

subsection \<open>The whole of \<open>label_emails\<close>\<close>

lemma label_emails_cases [consumes 1, case_names caught passed]:
  assumes "label_emails rules d w = (r, w')"
  obtains
    (caught) w1 where "label_rules rules d w = (Inl HttpError, w1)" "r = Inr ()"
      "w' = logging ErrorOccurred w1"
  | (passed) "label_rules rules d w = (r, w')" "r \<noteq> Inl HttpError"
proof -
  obtain r0 w0 where lr: "label_rules rules d w = (r0, w0)"
    by (cases "label_rules rules d w")
  show thesis
  proof (cases "r0 = Inl HttpError")
    case True
    with assms lr show thesis by (intro caught[of w0]) (simp_all add: label_emails_def)
  next
    case False
    with assms lr have "r = r0 \<and> w' = w0"
      by (cases r0) (auto simp add: label_emails_def split: exn.splits)
    with lr False show thesis by (intro passed) simp_all
  qed
qed

lemma label_emails_trace:
  assumes "label_emails rules d w = (r, w')"
  obtains r0 w0 where "label_rules rules d w = (r0, w0)" "issued w w' = issued w w0"
    "filter is_applied (written w w') = filter is_applied (written w w0)"
    "evolves w w'" "evolves w0 w'" "fault_free w0 \<longrightarrow> fault_free w'"
  using assms
proof (cases rule: label_emails_cases)
  case (caught w1)
  from caught(1) have "evolves w w1" by (rule label_rules_evolves)
  with caught show ?thesis
    by (intro that[of "Inl HttpError" w1])
       (simp_all add: issued_step written_step evolves_logging_trans)
next
  case passed
  from passed(1) have "evolves w w'" by (rule label_rules_evolves)
  with passed show ?thesis by (intro that[of r w']) simp_all
qed

subsection \<open>What the log lines of a run say about the mailbox\<close>

lemma carries_mono: "evolves w w' \<Longrightarrow> carries w m n \<Longrightarrow> carries w' m n"
  unfolding carries_def
  by (meson evolves_resolved evolves_def subsetD)

lemma handled_cases:
  "handled m n e \<longleftrightarrow> (\<exists>s. e = InfoLabeled m s n \<or> e = InfoAlreadyLabeled m s n)"
  by (cases e) auto

lemma handled_applied: "\<not> is_applied e \<Longrightarrow> \<not> is_skipped e \<Longrightarrow> \<not> handled m n e"
  by (cases e) auto

lemma label_message_log:
  assumes "label_message label_id s n a w = (r, w')"
  shows "\<forall>e \<in> set (written w w').
           (e = InfoLabeled a s n \<and> label_id \<notin> set (existing w a) \<or> e = InfoAlreadyLabeled a s n)
           \<and> label_id \<in> set (existing w' a)"
  using assms unfolding label_message_unfold
  by (auto split: if_splits simp add: written_def)

lemma label_message_done:
  assumes "label_message label_id s n a w = (Inr (), w')"
  shows "label_id \<in> set (existing w' a)"
  using assms unfolding label_message_unfold
  by (auto split: if_splits)

lemma label_message_modify_new:
  assumes "label_message label_id s n a w = (r, w')"
    and "MessagesModify m [(''addLabelIds'', [l])] \<in> set (issued w w')"
  shows "l \<notin> set (existing w m)"
  using assms unfolding label_message_unfold
  by (auto split: if_splits simp add: issued_def)

lemma label_messages_log:
  assumes "label_messages label_id s n ms w = (r, w')"
  shows "\<forall>e \<in> set (written w w'). \<exists>a.
           (e = InfoLabeled a s n \<and> label_id \<notin> set (existing w a) \<or> e = InfoAlreadyLabeled a s n)
           \<and> label_id \<in> set (existing w' a)"
proof -
  let ?Q = "\<lambda>v e. \<exists>a.
      (e = InfoLabeled a s n \<and> label_id \<notin> set (existing w a) \<or> e = InfoAlreadyLabeled a s n)
      \<and> label_id \<in> set (existing v a)"
  let ?P = "\<lambda>v. evolves w v \<and> (\<forall>e \<in> set (written w v). ?Q v e)"
  have "?P w'"
  proof (rule for_each_invariant[OF assms[unfolded label_messages_def], where P = ?P])
    show "?P w" by simp
  next
    fix x v r v'
    assume p: "?P v" and b: "label_message label_id s n x v = (r, v')"
    have ev: "evolves v v'" using b by (rule label_message_evolves)
    from p have e0: "evolves w v" by simp
    have sub: "\<And>m. set (existing w m) \<subseteq> set (existing v m)"
      "\<And>m. set (existing v m) \<subseteq> set (existing v' m)"
      using e0 ev by (simp_all add: evolves_def)
    have old: "?Q v' e" if "?Q v e" for e using that sub(2) by blast
    have new: "?Q v' e" if "e \<in> set (written v v')" for e
      using label_message_log[OF b] that sub(1) by blast
    show "?P v'"
      using p old new evolves_trans[OF e0 ev] unfolding written_trans[OF e0 ev] by auto
  qed
  then show ?thesis by simp
qed

lemma label_messages_done:
  assumes "label_messages label_id s n ms w = (Inr (), w')"
  shows "\<forall>m \<in> set ms. label_id \<in> set (existing w' m)"
  using assms
proof (induction ms arbitrary: w)
  case Nil
  then show ?case by simp
next
  case (Cons a ms)
  obtain r1 w1 where step: "label_message label_id s n a w = (r1, w1)"
    by (cases "label_message label_id s n a w")
  from Cons.prems step have r1: "r1 = Inr ()"
    and rest: "label_messages label_id s n ms w1 = (Inr (), w')"
    by (cases r1; simp add: label_messages_def)+
  have "evolves w1 w'" using rest by (rule label_messages_evolves)
  with label_message_done[OF step[unfolded r1]] have "label_id \<in> set (existing w' a)"
    by (auto simp add: evolves_def)
  with Cons.IH[OF rest] show ?case by simp
qed

lemma label_messages_modify_new:
  assumes "label_messages label_id s n ms w = (r, w')" and "l \<in> set (existing w m)"
  shows "MessagesModify m [(''addLabelIds'', [l])] \<notin> set (issued w w')"
proof -
  let ?c = "MessagesModify m [(''addLabelIds'', [l])]"
  let ?P = "\<lambda>v. evolves w v \<and> ?c \<notin> set (issued w v)"
  have "?P w'"
  proof (rule for_each_invariant[OF assms(1)[unfolded label_messages_def], where P = ?P])
    show "?P w" by simp
  next
    fix x v r v'
    assume p: "?P v" and b: "label_message label_id s n x v = (r, v')"
    have ev: "evolves v v'" using b by (rule label_message_evolves)
    from p have e0: "evolves w v" by simp
    then have "l \<in> set (existing v m)" using assms(2) by (auto simp add: evolves_def)
    with label_message_modify_new[OF b] have "?c \<notin> set (issued v v')" by blast
    with p show "?P v'"
      using evolves_trans[OF e0 ev] unfolding issued_trans[OF e0 ev] by simp
  qed
  then show ?thesis by simp
qed

lemma get_or_create_label_unhandled:
  assumes "get_or_create_label name w = (r, w')"
  shows "\<forall>e \<in> set (written w w'). \<not> handled m n e \<and> \<not> is_applied e"
proof -
  from get_or_create_label_written[OF assms]
  have "\<forall>e \<in> set (written w w'). \<not> is_applied e \<and> \<not> is_skipped e"
    by (simp add: applied_def skipped_def filter_empty_conv)
  then show ?thesis by (auto dest: handled_applied)
qed

lemma label_message_result:
  "label_message label_id s n a w = (r, w') \<Longrightarrow> r = Inr () \<or> r = Inl HttpError"
  unfolding label_message_unfold by (auto split: if_splits)

lemma label_messages_result:
  "label_messages label_id s n ms w = (r, w') \<Longrightarrow> r = Inr () \<or> r = Inl HttpError"
proof (induction ms arbitrary: w)
  case Nil
  then show ?case by (simp add: label_messages_def)
next
  case (Cons a ms)
  obtain r1 w1 where step: "label_message label_id s n a w = (r1, w1)"
    by (cases "label_message label_id s n a w")
  from label_message_result[OF step] show ?case
  proof
    assume "r1 = Inr ()"
    with Cons.prems step have "label_messages label_id s n ms w1 = (r, w')"
      by (simp add: label_messages_def)
    then show ?thesis by (rule Cons.IH)
  next
    assume "r1 = Inl HttpError"
    with Cons.prems step show ?thesis by (simp add: label_messages_def)
  qed
qed

lemma label_rule_log:
  assumes "label_rule d (s, n) w = (r, w')"
  shows "\<forall>e \<in> set (written w w'). \<forall>m n'. handled m n' e \<longrightarrow> carries w' m n'"
  using assms
proof (cases rule: label_rule_runs)
  case (messages lid w1 dt)
  have res: "label_map (labels w') n = Some lid"
    using get_or_create_label_resolved[OF messages(1)] messages(9)
    by (rule evolves_resolved[rotated])
  show ?thesis
  proof (intro ballI allI impI)
    fix e m n' assume e: "e \<in> set (written w w')" and h: "handled m n' e"
    from e h get_or_create_label_unhandled[OF messages(1)]
    have "e \<in> set (written (sent (MessagesList (query_for s dt) None) w1) w')"
      unfolding messages(8) by auto
    with label_messages_log[OF messages(6)] obtain a where
      "e = InfoLabeled a s n \<or> e = InfoAlreadyLabeled a s n" "lid \<in> set (existing w' a)"
      by blast
    with h res show "carries w' m n'" by (auto simp add: carries_def)
  qed
qed (insert get_or_create_label_unhandled[of n w], auto)

lemma unhandled_not_labeled:
  "\<forall>e \<in> set es. \<not> handled m n e \<and> \<not> is_applied e \<Longrightarrow> InfoLabeled m s n \<notin> set es"
  by (metis is_applied.simps(1))

lemma label_rule_relabels:
  assumes "label_rule d (s, n) w = (r, w')" and "carries w m n'"
  shows "InfoLabeled m s' n' \<notin> set (written w w')"
  using assms(1)
proof (cases rule: label_rule_runs)
  case (messages lid w1 dt)
  let ?w2 = "sent (MessagesList (query_for s dt) None) w1"
  note un = unhandled_not_labeled[where m=m and n=n' and s=s', OF get_or_create_label_unhandled[OF messages(1)]]
  show ?thesis
  proof
    assume e: "InfoLabeled m s' n' \<in> set (written w w')"
    with un have "InfoLabeled m s' n' \<in> set (written ?w2 w')"
      unfolding messages(8) by simp
    with label_messages_log[OF messages(6)] obtain a where
      "InfoLabeled m s' n' = InfoLabeled a s n \<and> lid \<notin> set (existing ?w2 a)
        \<or> InfoLabeled m s' n' = InfoAlreadyLabeled a s n"
      by blast
    then have n: "n' = n" and no: "lid \<notin> set (existing ?w2 m)"
      by simp_all
    from assms(2) n obtain l where l: "label_map (labels w) n = Some l" "l \<in> set (existing w m)"
      by (auto simp add: carries_def)
    from get_or_create_label_known[OF messages(1) l(1)] have "lid = l" by simp
    with no l(2) get_or_create_label_existing[OF messages(1)] show False by simp
  qed
next
  case resolve_failed
  with unhandled_not_labeled[where m=m and n=n' and s=s', OF get_or_create_label_unhandled[OF resolve_failed(1)]]
  show ?thesis by simp
next
  case (empty_id w1)
  with unhandled_not_labeled[where m=m and n=n' and s=s', OF get_or_create_label_unhandled[OF empty_id(1)]]
  show ?thesis by simp
next
  case (overflow lid)
  with unhandled_not_labeled[where m=m and n=n' and s=s', OF get_or_create_label_unhandled[OF overflow(1)]]
  show ?thesis by simp
next
  case (search_failed lid w1 dt)
  with unhandled_not_labeled[where m=m and n=n' and s=s', OF get_or_create_label_unhandled[OF search_failed(1)]]
  show ?thesis by simp
next
  case (no_messages lid w1 dt)
  with unhandled_not_labeled[where m=m and n=n' and s=s', OF get_or_create_label_unhandled[OF no_messages(1)]]
  show ?thesis by simp
qed

lemma label_rule_modify_new:
  assumes "label_rule d (s, n) w = (r, w')" and "l \<in> set (existing w m)"
  shows "MessagesModify m [(''addLabelIds'', [l])] \<notin> set (issued w w')"
  using assms(1)
proof (cases rule: label_rule_runs)
  case (messages lid w1 dt)
  have "l \<in> set (existing (sent (MessagesList (query_for s dt) None) w1) m)"
    using assms(2) get_or_create_label_existing[OF messages(1)] by simp
  from label_messages_modify_new[OF messages(6) this] get_or_create_label_calls[OF messages(1)]
  show ?thesis unfolding messages(7) by auto
qed (insert get_or_create_label_calls[of n w], auto)

lemma label_rules_log:
  assumes "label_rules rules d w = (r, w')"
  shows "\<forall>e \<in> set (written w w'). \<forall>m n. handled m n e \<longrightarrow> carries w' m n"
proof -
  let ?P = "\<lambda>v. evolves w v \<and> (\<forall>e \<in> set (written w v). \<forall>m n. handled m n e \<longrightarrow> carries v m n)"
  have "?P w'"
  proof (rule for_each_invariant[OF assms[unfolded label_rules_def], where P = ?P])
    show "?P w" by simp
  next
    fix x v r v'
    assume p: "?P v" and b: "label_rule d x v = (r, v')"
    obtain s n where xe: "x = (s, n)" by (cases x)
    have ev: "evolves v v'" using b by (rule label_rule_evolves)
    from p have e0: "evolves w v" by simp
    show "?P v'"
      using p label_rule_log[OF b[unfolded xe]] carries_mono[OF ev] evolves_trans[OF e0 ev]
      unfolding written_trans[OF e0 ev] by auto
  qed
  then show ?thesis by simp
qed

lemma label_rules_relabels:
  assumes "label_rules rules d w = (r, w')" and "carries w m n"
  shows "InfoLabeled m s n \<notin> set (written w w')"
proof -
  let ?P = "\<lambda>v. evolves w v \<and> InfoLabeled m s n \<notin> set (written w v)"
  have "?P w'"
  proof (rule for_each_invariant[OF assms(1)[unfolded label_rules_def], where P = ?P])
    show "?P w" by simp
  next
    fix x v r v'
    assume p: "?P v" and b: "label_rule d x v = (r, v')"
    obtain s0 n0 where xe: "x = (s0, n0)" by (cases x)
    have ev: "evolves v v'" using b by (rule label_rule_evolves)
    from p have e0: "evolves w v" by simp
    then have "carries v m n" using assms(2) by (rule carries_mono)
    from label_rule_relabels[OF b[unfolded xe] this] p
    show "?P v'"
      using evolves_trans[OF e0 ev] unfolding written_trans[OF e0 ev] by simp
  qed
  then show ?thesis by simp
qed

lemma label_rules_modify_new:
  assumes "label_rules rules d w = (r, w')" and "l \<in> set (existing w m)"
  shows "MessagesModify m [(''addLabelIds'', [l])] \<notin> set (issued w w')"
proof -
  let ?P = "\<lambda>v. evolves w v \<and> MessagesModify m [(''addLabelIds'', [l])] \<notin> set (issued w v)"
  have "?P w'"
  proof (rule for_each_invariant[OF assms(1)[unfolded label_rules_def], where P = ?P])
    show "?P w" by simp
  next
    fix x v r v'
    assume p: "?P v" and b: "label_rule d x v = (r, v')"
    obtain s0 n0 where xe: "x = (s0, n0)" by (cases x)
    have ev: "evolves v v'" using b by (rule label_rule_evolves)
    from p have e0: "evolves w v" by simp
    then have "l \<in> set (existing v m)" using assms(2) by (auto simp add: evolves_def)
    from label_rule_modify_new[OF b[unfolded xe] this] p
    show "?P v'"
      using evolves_trans[OF e0 ev] unfolding issued_trans[OF e0 ev] by simp
  qed
  then show ?thesis by simp
qed

text \<open>A rule that ran without an \<open>HttpError\<close> is settled.\<close>

lemma label_rule_settles:
  assumes "label_rule d (s, n) w = (r, w')" and "r \<noteq> Inl HttpError"
  shows "settled w' d (s, n) \<and> (r = Inr () \<or> r = Inl OverflowError \<and> date_n_days_ago w d = None)"
  using assms(1)
proof (cases rule: label_rule_runs)
  case resolve_failed
  with assms(2) show ?thesis by simp
next
  case (empty_id w1)
  have "label_map (labels w') n = Some []"
    using get_or_create_label_resolved[OF empty_id(1)] empty_id(6)
    by (rule evolves_resolved[rotated])
  then show ?thesis using empty_id by (simp add: settled_def)
next
  case (overflow lid)
  have "evolves w w'" using assms(1) by (rule label_rule_evolves)
  then have "date_n_days_ago w' d = None" using overflow(3) by (simp add: evolves_date)
  with overflow show ?thesis by (simp add: settled_def)
next
  case (search_failed lid w1 dt)
  with assms(2) show ?thesis by simp
next
  case (no_messages lid w1 dt)
  have ev: "evolves w w'" using assms(1) by (rule label_rule_evolves)
  have "label_map (labels w') n = Some lid"
    using get_or_create_label_resolved[OF no_messages(1)] no_messages(10)
    by (rule evolves_resolved[rotated])
  moreover have "search w' = search w" using ev by (simp add: evolves_def)
  moreover have "date_n_days_ago w' d = Some dt" using ev no_messages(3) by (simp add: evolves_date)
  ultimately show ?thesis using no_messages by (simp add: settled_def)
next
  case (messages lid w1 dt)
  have ev: "evolves w w'" using assms(1) by (rule label_rule_evolves)
  from label_messages_result[OF messages(6)] assms(2) have r: "r = Inr ()" by blast
  note lm = label_messages_done[OF messages(6)[unfolded r]]
  have "label_map (labels w') n = Some lid"
    using get_or_create_label_resolved[OF messages(1)] messages(9)
    by (rule evolves_resolved[rotated])
  moreover have "search w' = search w" using ev by (simp add: evolves_def)
  moreover have "date_n_days_ago w' d = Some dt" using ev messages(3) by (simp add: evolves_date)
  ultimately show ?thesis using lm r by (simp add: settled_def)
qed

lemma label_rules_settles:
  assumes "label_rules rules d w = (r, w')" and "r \<noteq> Inl HttpError"
  shows "\<forall>rule \<in> set rules. settled w' d rule"
  using assms
proof (induction rules arbitrary: w)
  case Nil
  then show ?case by simp
next
  case (Cons rule rules)
  obtain s n where rule: "rule = (s, n)" by (cases rule)
  obtain r1 w1 where step: "label_rule d (s, n) w = (r1, w1)"
    by (cases "label_rule d (s, n) w")
  have ev: "evolves w w1" using step by (rule label_rule_evolves)
  show ?case
  proof (cases r1)
    case (Inl e)
    with Cons.prems(1) step rule have same: "w' = w1" "r = Inl e" by (simp_all add: label_rules_def)
    with Cons.prems(2) Inl have "r1 \<noteq> Inl HttpError" by simp
    from label_rule_settles[OF step this] Inl have "date_n_days_ago w d = None" by simp
    then have "date_n_days_ago w1 d = None" using ev by (simp add: evolves_date)
    with same show ?thesis by (simp add: settled_no_date)
  next
    case (Inr u)
    with Cons.prems(1) step rule have rest: "label_rules rules d w1 = (r, w')"
      by (simp add: label_rules_def)
    have "evolves w1 w'" using rest by (rule label_rules_evolves)
    moreover have "settled w1 d (s, n)" using label_rule_settles[OF step] Inr by simp
    ultimately have "settled w' d (s, n)" by (rule settled_mono)
    with Cons.IH[OF rest Cons.prems(2)] rule show ?thesis by simp
  qed
qed

text \<open>
  C2. Idempotence. A first run of \<open>label_emails\<close>, then a second run with the same rules
  and the same lookback on the mailbox the first one left, whatever the service does to
  the requests of either run.
  \<^item> When the first run logged no error, the second run sends no \<open>modify\<close> request and
    logs no message as labeled.
  \<^item> In any case, a message that the first run logged as labeled or as already labeled
    for a label name is not logged as labeled for that name again.
  \<^item> In any case, no \<open>modify\<close> of the second run adds a label id to a message that
    carries it after the first run.
\<close>

theorem second_run_sends_no_modify:
  assumes "label_emails rules d w = (r1, w1)"
    and "label_emails rules d (with_faults fs w1) = (r2, w2)"
  shows "(ErrorOccurred \<notin> set (written w w1) \<longrightarrow>
            (\<forall>c \<in> set (issued w1 w2). \<not> is_modify c) \<and> applied (written w1 w2) = 0)
       \<and> (\<forall>e \<in> set (written w w1). \<forall>m n. handled m n e \<longrightarrow>
            (\<forall>s. InfoLabeled m s n \<notin> set (written w1 w2)))
       \<and> (\<forall>m l. l \<in> set (existing w1 m) \<longrightarrow>
            MessagesModify m [(''addLabelIds'', [l])] \<notin> set (issued w1 w2))"
proof -
  let ?v = "with_faults fs w1"
  from assms(2) obtain r3 w3 where second: "label_rules rules d ?v = (r3, w3)"
    and iss: "issued ?v w2 = issued ?v w3"
    and wr: "filter is_applied (written ?v w2) = filter is_applied (written ?v w3)"
    by (rule label_emails_trace)
  have wr': "InfoLabeled m s n \<in> set (written w1 w2) \<longleftrightarrow> InfoLabeled m s n \<in> set (written ?v w3)"
    for m s n
  proof -
    have "InfoLabeled m s n \<in> set (filter is_applied (written ?v w2))
            \<longleftrightarrow> InfoLabeled m s n \<in> set (filter is_applied (written ?v w3))"
      unfolding wr ..
    then show ?thesis by simp
  qed
  have a: "(\<forall>c \<in> set (issued w1 w2). \<not> is_modify c) \<and> applied (written w1 w2) = 0"
    if clean: "ErrorOccurred \<notin> set (written w w1)"
  proof -
    from assms(1) have "\<forall>rule \<in> set rules. settled w1 d rule"
    proof (cases rule: label_emails_cases)
      case (caught w0)
      from caught(1) have "evolves w w0" by (rule label_rules_evolves)
      with caught(3) clean show ?thesis by (simp add: written_step)
    next
      case passed
      then show ?thesis by (rule label_rules_settles)
    qed
    then have st: "\<forall>rule \<in> set rules. settled ?v d rule" by simp
    have nm: "\<forall>c \<in> set (issued ?v w3). \<not> is_modify c"
      using second st by (rule label_rules_settled)
    then have "filter is_modify (issued ?v w3) = []"
      by (simp add: filter_empty_conv)
    with label_rules_applied[OF second] have "applied (written ?v w3) = 0"
      by simp
    with nm iss wr show ?thesis by (simp add: applied_def)
  qed
  have b: "InfoLabeled m s n \<notin> set (written w1 w2)"
    if e: "e \<in> set (written w w1)" and h: "handled m n e" for e m n s
  proof -
    from assms(1) obtain r0 w0 where first: "label_rules rules d w = (r0, w0)"
      and ev0: "evolves w0 w1" and ev: "evolves w w0"
      and wr0: "filter is_applied (written w w1) = filter is_applied (written w w0)"
      by (rule label_emails_trace) (auto dest: label_rules_evolves)
    have "e \<in> set (written w w0)"
    proof (cases "e = ErrorOccurred")
      case True
      with h show ?thesis by simp
    next
      case False
      from assms(1) e False ev show ?thesis
        by (cases rule: label_emails_cases) (auto simp add: first written_step)
    qed
    with label_rules_log[OF first] h have "carries w0 m n" by blast
    then have "carries w1 m n" using ev0 by (rule carries_mono[rotated])
    then have "carries ?v m n" by (simp add: carries_def existing_def)
    from label_rules_relabels[OF second this] show ?thesis unfolding wr' .
  qed
  have c: "MessagesModify m [(''addLabelIds'', [l])] \<notin> set (issued w1 w2)"
    if "l \<in> set (existing w1 m)" for m l
  proof -
    from that have "l \<in> set (existing ?v m)" by (simp add: existing_def)
    from label_rules_modify_new[OF second this] iss show ?thesis by simp
  qed
  from a b c show ?thesis by blast
qed

theorem second_run_sends_no_modify_witness:
  "ErrorOccurred \<notin> set (written inbox (snd (label_emails two_rules 7 inbox))) \<and>
   MessagesModify ''m2'' [(''addLabelIds'', [''Label_1''])]
     \<in> set (calls (snd (label_emails two_rules 7 inbox))) \<and>
   filter is_modify
     (issued (snd (label_emails two_rules 7 inbox))
        (snd (label_emails two_rules 7
               (with_faults [] (snd (label_emails two_rules 7 inbox)))))) = [] \<and>
   applied
     (written (snd (label_emails two_rules 7 inbox))
        (snd (label_emails two_rules 7
               (with_faults [] (snd (label_emails two_rules 7 inbox)))))) = 0 \<and>
   InfoLabeled ''m2'' ''alerts@example.com'' ''Alerts''
     \<in> set (written aborting_inbox (snd (label_emails two_rules 7 aborting_inbox))) \<and>
   ErrorOccurred \<in> set (written aborting_inbox (snd (label_emails two_rules 7 aborting_inbox))) \<and>
   handled ''m2'' ''Alerts'' (InfoLabeled ''m2'' ''alerts@example.com'' ''Alerts'') \<and>
   InfoLabeled ''m2'' ''alerts@example.com'' ''Alerts''
     \<notin> set (written (snd (label_emails two_rules 7 aborting_inbox))
               (snd (label_emails two_rules 7
                      (with_faults [] (snd (label_emails two_rules 7 aborting_inbox)))))) \<and>
   ''Label_1'' \<in> set (existing (snd (label_emails two_rules 7 aborting_inbox)) ''m2'') \<and>
   MessagesModify ''m2'' [(''addLabelIds'', [''Label_1''])]
     \<notin> set (issued (snd (label_emails two_rules 7 aborting_inbox))
               (snd (label_emails two_rules 7
                      (with_faults [] (snd (label_emails two_rules 7 aborting_inbox)))))) \<and>
   MessagesModify ''m3'' [(''addLabelIds'', [''Label_News''])]
     \<in> set (issued (snd (label_emails two_rules 7 aborting_inbox))
               (snd (label_emails two_rules 7
                      (with_faults [] (snd (label_emails two_rules 7 aborting_inbox))))))"
proof -
  let ?w1 = "snd (label_emails two_rules 7 inbox)"
  let ?v1 = "snd (label_emails two_rules 7 aborting_inbox)"
  have h: "ErrorOccurred \<notin> set (written inbox ?w1)"
    by (simp add: inbox_def two_rules_def run_defs written_def)
  have first: "MessagesModify ''m2'' [(''addLabelIds'', [''Label_1''])] \<in> set (calls ?w1)"
    by (simp add: inbox_def two_rules_def run_defs)
  have clean:
    "filter is_modify (issued ?w1 (snd (label_emails two_rules 7 (with_faults [] ?w1)))) = [] \<and>
     applied (written ?w1 (snd (label_emails two_rules 7 (with_faults [] ?w1)))) = 0"
    using second_run_sends_no_modify
            [OF surjective_pairing[of "label_emails two_rules 7 inbox"]
                surjective_pairing[of "label_emails two_rules 7 (with_faults [] ?w1)"]]
      h
    by (simp add: filter_empty_conv)
  have logged1: "written aborting_inbox ?v1 =
     [InfoLabelExists ''Alerts'',
      InfoAlreadyLabeled ''m1'' ''alerts@example.com'' ''Alerts'',
      InfoLabeled ''m2'' ''alerts@example.com'' ''Alerts'',
      ErrorLabel ''News'', ErrorOccurred]"
    by (simp add: aborting_inbox_def with_faults_def inbox_def two_rules_def run_defs written_def)
  have carried: "''Label_1'' \<in> set (existing ?v1 ''m2'')"
    by (simp add: aborting_inbox_def with_faults_def inbox_def two_rules_def run_defs)
  have third: "MessagesModify ''m3'' [(''addLabelIds'', [''Label_News''])]
     \<in> set (issued ?v1 (snd (label_emails two_rules 7 (with_faults [] ?v1))))"
    by (simp add: aborting_inbox_def with_faults_def inbox_def two_rules_def run_defs issued_def)
  have aborted:
    "InfoLabeled ''m2'' ''alerts@example.com'' ''Alerts''
       \<notin> set (written ?v1 (snd (label_emails two_rules 7 (with_faults [] ?v1)))) \<and>
     MessagesModify ''m2'' [(''addLabelIds'', [''Label_1''])]
       \<notin> set (issued ?v1 (snd (label_emails two_rules 7 (with_faults [] ?v1))))"
    using second_run_sends_no_modify
            [OF surjective_pairing[of "label_emails two_rules 7 aborting_inbox"]
                surjective_pairing[of "label_emails two_rules 7 (with_faults [] ?v1)"]]
      logged1 carried
    by simp
  from h first clean logged1 carried third aborted show ?thesis by simp
qed

lemma label_rules_modifies:
  assumes "label_rules rules d w = (r, w')"
  shows "\<forall>c \<in> set (issued w w'). is_modify c \<longrightarrow>
           (\<exists>m s n l. (s, n) \<in> set rules \<and> label_map (labels w') n = Some l \<and>
                      c = MessagesModify m [(''addLabelIds'', [l])])"
proof -
  let ?Q = "\<lambda>v c. \<exists>m s n l. (s, n) \<in> set rules \<and> label_map (labels v) n = Some l \<and>
                      c = MessagesModify m [(''addLabelIds'', [l])]"
  let ?P = "\<lambda>v. evolves w v \<and> (\<forall>c \<in> set (issued w v). is_modify c \<longrightarrow> ?Q v c)"
  have "?P w'"
  proof (rule for_each_invariant[OF assms(1)[unfolded label_rules_def], where P = ?P])
    show "?P w" by simp
  next
    fix x v r v'
    assume x: "x \<in> set rules" and p: "?P v" and b: "label_rule d x v = (r, v')"
    obtain s n where xe: "x = (s, n)" by (cases x)
    have ev: "evolves v v'" using b by (rule label_rule_evolves)
    from p have e0: "evolves w v" by simp
    have old: "?Q v' c" if "?Q v c" for c
      using that evolves_resolved[OF ev] by blast
    have new: "?Q v' c" if "c \<in> set (issued v v')" "is_modify c" for c
      using label_rule_modifies[OF b[unfolded xe]] that x xe by blast
    show "?P v'"
      using p old new evolves_trans[OF e0 ev] unfolding issued_trans[OF e0 ev]
      by (auto simp del: is_modify.simps)
  qed
  then show ?thesis by simp
qed

lemma label_message_adds:
  assumes "label_message label_id s n a w = (r, w')"
  shows "set (existing w' m) \<subseteq> insert label_id (set (existing w m))"
  using assms unfolding label_message_unfold
  by (auto split: if_splits)

lemma label_messages_adds:
  assumes "label_messages label_id s n ms w = (r, w')"
  shows "\<forall>m. set (existing w' m) \<subseteq> insert label_id (set (existing w m))"
proof (rule for_each_invariant[OF assms[unfolded label_messages_def],
        where P = "\<lambda>v. \<forall>m. set (existing v m) \<subseteq> insert label_id (set (existing w m))"])
  show "\<forall>m. set (existing w m) \<subseteq> insert label_id (set (existing w m))" by auto
next
  fix x v r v'
  assume p: "\<forall>m. set (existing v m) \<subseteq> insert label_id (set (existing w m))"
    and b: "label_message label_id s n x v = (r, v')"
  show "\<forall>m. set (existing v' m) \<subseteq> insert label_id (set (existing w m))"
  proof
    fix m
    from label_message_adds[OF b, of m] p show "set (existing v' m) \<subseteq> insert label_id (set (existing w m))"
      by blast
  qed
qed

lemma label_rule_adds:
  assumes "label_rule d (s, n) w = (r, w')"
  shows "set (existing w' m) \<subseteq> set (existing w m) \<union> {l. label_map (labels w') n = Some l}"
  using assms
proof (cases rule: label_rule_runs)
  case resolve_failed
  with get_or_create_label_existing[OF resolve_failed(1)] show ?thesis by simp
next
  case (overflow lid)
  with get_or_create_label_existing[OF overflow(1)] show ?thesis by simp
next
  case (messages lid w1 dt)
  have "label_map (labels w') n = Some lid"
    using get_or_create_label_resolved[OF messages(1)] messages(9)
    by (rule evolves_resolved[rotated])
  with label_messages_adds[OF messages(6)] get_or_create_label_existing[OF messages(1)]
  show ?thesis by auto
qed simp_all

lemma label_rules_adds:
  assumes "label_rules rules d w = (r, w')"
  shows "set (existing w' m)
           \<subseteq> set (existing w m) \<union> {l. \<exists>s n. (s, n) \<in> set rules \<and> label_map (labels w') n = Some l}"
proof -
  let ?R = "\<lambda>v. {l. \<exists>s n. (s, n) \<in> set rules \<and> label_map (labels v) n = Some l}"
  let ?P = "\<lambda>v. evolves w v \<and> set (existing v m) \<subseteq> set (existing w m) \<union> ?R v"
  have "?P w'"
  proof (rule for_each_invariant[OF assms[unfolded label_rules_def], where P = ?P])
    show "?P w" by simp
  next
    fix x v r v'
    assume x: "x \<in> set rules" and p: "?P v" and b: "label_rule d x v = (r, v')"
    obtain s n where xe: "x = (s, n)" by (cases x)
    have ev: "evolves v v'" using b by (rule label_rule_evolves)
    from p have e0: "evolves w v" by simp
    have mono: "?R v \<subseteq> ?R v'" using evolves_resolved[OF ev] by blast
    have new: "{l. label_map (labels v') n = Some l} \<subseteq> ?R v'" using x xe by blast
    from label_rule_adds[OF b[unfolded xe], of m] p mono new
    have "set (existing v' m) \<subseteq> set (existing w m) \<union> ?R v'" by blast
    with evolves_trans[OF e0 ev] show "?P v'" by simp
  qed
  then show ?thesis by simp
qed

text \<open>
  C5. Every \<open>modify\<close> request that \<open>label_emails\<close> sends has the body
  \<open>{"addLabelIds": [l]}\<close> and nothing else, where \<open>l\<close> is the id that the label name
  of one of the rules resolves to. In the mailbox, no message loses a label in the run,
  and the labels a message gains are ids that label names of the rules resolve to.
\<close>

theorem modify_adds_only_the_resolved_label:
  assumes "label_emails rules d w = (r, w')"
  shows "(\<forall>c \<in> set (issued w w'). is_modify c \<longrightarrow>
            (\<exists>m s n l. (s, n) \<in> set rules \<and> label_map (labels w') n = Some l \<and>
                       c = MessagesModify m [(''addLabelIds'', [l])]))
       \<and> (\<forall>m. set (existing w m) \<subseteq> set (existing w' m))
       \<and> (\<forall>m. set (existing w' m) \<subseteq> set (existing w m) \<union>
                 {l. \<exists>s n. (s, n) \<in> set rules \<and> label_map (labels w') n = Some l})"
proof -
  from assms obtain r0 w0 where run: "label_rules rules d w = (r0, w0)"
    and iss: "issued w w' = issued w w0" and ev: "evolves w w'" and ev0: "evolves w0 w'"
    by (rule label_emails_trace)
  have lm: "\<And>n l. label_map (labels w0) n = Some l \<Longrightarrow> label_map (labels w') n = Some l"
    using ev0 by (rule evolves_resolved)
  with label_rules_modifies[OF run] have
    "\<forall>c \<in> set (issued w w'). is_modify c \<longrightarrow>
            (\<exists>m s n l. (s, n) \<in> set rules \<and> label_map (labels w') n = Some l \<and>
                       c = MessagesModify m [(''addLabelIds'', [l])])"
    unfolding iss by blast
  moreover have "\<forall>m. set (existing w m) \<subseteq> set (existing w' m)"
    using ev by (simp add: evolves_def)
  moreover have "set (existing w' m) \<subseteq> set (existing w m) \<union>
                 {l. \<exists>s n. (s, n) \<in> set rules \<and> label_map (labels w') n = Some l}" for m
  proof -
    have "set (existing w' m) \<subseteq> set (existing w0 m)"
      using assms run by (cases rule: label_emails_cases) auto
    with label_rules_adds[OF run, of m] lm show ?thesis by blast
  qed
  ultimately show ?thesis by blast
qed

theorem modify_adds_only_the_resolved_label_witness:
  "filter is_modify (issued inbox (snd (label_emails two_rules 7 inbox))) =
     [MessagesModify ''m2'' [(''addLabelIds'', [''Label_1''])],
      MessagesModify ''m3'' [(''addLabelIds'', [''Label_News''])]] \<and>
   label_map (labels (snd (label_emails two_rules 7 inbox))) ''Alerts'' = Some ''Label_1'' \<and>
   label_map (labels (snd (label_emails two_rules 7 inbox))) ''News'' = Some ''Label_News'' \<and>
   existing inbox ''m2'' = [''INBOX''] \<and>
   existing (snd (label_emails two_rules 7 inbox)) ''m2'' = [''INBOX'', ''Label_1'']"
proof -
  have "filter is_modify (issued inbox (snd (label_emails two_rules 7 inbox))) =
     [MessagesModify ''m2'' [(''addLabelIds'', [''Label_1''])],
      MessagesModify ''m3'' [(''addLabelIds'', [''Label_News''])]]"
    by (simp add: inbox_def two_rules_def run_defs issued_def)
  moreover have
    "label_map (labels (snd (label_emails two_rules 7 inbox))) ''Alerts'' = Some ''Label_1''"
    "label_map (labels (snd (label_emails two_rules 7 inbox))) ''News'' = Some ''Label_News''"
    "existing inbox ''m2'' = [''INBOX'']"
    "existing (snd (label_emails two_rules 7 inbox)) ''m2'' = [''INBOX'', ''Label_1'']"
    by (simp_all add: inbox_def two_rules_def run_defs)
  ultimately show ?thesis
    using modify_adds_only_the_resolved_label
            [OF surjective_pairing[of "label_emails two_rules 7 inbox"]]
    by simp
qed

lemma label_rule_no_messages:
  assumes "get_or_create_label n w = (Inr lid, w1)" and "lid \<noteq> []" and "\<not> faulty w1"
    and "date_n_days_ago w d = Some dt"
    and "or_default (messages (search w (query_for s dt) None)) [] = []"
  shows "label_rule d (s, n) w =
           (Inr (), logging (InfoNoEmails s d) (sent (MessagesList (query_for s dt) None) w1))"
proof -
  have ev: "evolves w w1" using assms(1) by (rule get_or_create_label_evolves)
  have "date_n_days_ago w1 d = Some dt" using evolves_date[OF ev] assms(4) by simp
  moreover have "search w1 = search w" using ev by (simp add: evolves_def)
  ultimately have "date_n_days_ago w1 d = Some dt" "search w1 = search w" by simp_all
  with assms show ?thesis
    by (simp add: label_rule_def messages_list_def Let_def)
qed

text \<open>
  C6. A rule whose search result holds no message (the lookback being a date the clock
  can reach): the rule sends no \<open>get\<close> and no \<open>modify\<close>, logs no message as labeled or
  as already labeled, and ends normally unless a request of its own (listing the labels,
  creating the label, the search) was answered with an \<open>HttpError\<close>. When the label
  resolved and the search was answered, the rule ends normally right after the search,
  with the line that no emails were found.
\<close>

theorem no_match_outcome:
  assumes "date_n_days_ago w d = Some dt"
    and "or_default (messages (search w (query_for s dt) None)) [] = []"
    and "label_rule d (s, n) w = (r, w')"
  shows "(\<forall>c \<in> set (issued w w'). \<not> is_get c \<and> \<not> is_modify c)
       \<and> applied (written w w') = 0 \<and> skipped (written w w') = 0
       \<and> (r = Inr () \<or> r = Inl HttpError)
       \<and> (fault_free w \<longrightarrow> r = Inr ())
       \<and> (\<forall>lid w1. get_or_create_label n w = (Inr lid, w1) \<and> lid \<noteq> [] \<and> \<not> faulty w1 \<longrightarrow>
            (r, w') = (Inr (), logging (InfoNoEmails s d)
                                (sent (MessagesList (query_for s dt) None) w1)))"
proof -
  have exact: "\<forall>lid w1. get_or_create_label n w = (Inr lid, w1) \<and> lid \<noteq> [] \<and> \<not> faulty w1 \<longrightarrow>
            (r, w') = (Inr (), logging (InfoNoEmails s d)
                                (sent (MessagesList (query_for s dt) None) w1))"
    using label_rule_no_messages[OF _ _ _ assms(1,2)] assms(3) by auto
  have "(\<forall>c \<in> set (issued w w'). \<not> is_get c \<and> \<not> is_modify c)
       \<and> applied (written w w') = 0 \<and> skipped (written w w') = 0
       \<and> (r = Inr () \<or> r = Inl HttpError)
       \<and> (fault_free w \<longrightarrow> r = Inr ())"
    using assms(3)
  proof (cases rule: label_rule_runs)
    case resolve_failed
    with get_or_create_label_calls[OF resolve_failed(1)]
      get_or_create_label_written[OF resolve_failed(1)]
      get_or_create_label_fault_free[OF resolve_failed(1)]
    show ?thesis by auto
  next
    case (empty_id w1)
    with get_or_create_label_calls[OF empty_id(1)] get_or_create_label_written[OF empty_id(1)]
    show ?thesis by (simp add: applied_def skipped_def)
  next
    case (overflow lid)
    with assms(1) show ?thesis by simp
  next
    case (search_failed lid w1 dt')
    with get_or_create_label_calls[OF search_failed(1)]
      get_or_create_label_written[OF search_failed(1)]
      get_or_create_label_fault_free[OF search_failed(1)]
    show ?thesis by (auto dest: fault_free_not_faulty)
  next
    case (no_messages lid w1 dt')
    with get_or_create_label_calls[OF no_messages(1)]
      get_or_create_label_written[OF no_messages(1)]
    show ?thesis by (simp add: applied_def skipped_def)
  next
    case (messages lid w1 dt')
    with assms(1,2) show ?thesis by simp
  qed
  with exact show ?thesis by blast
qed

theorem no_match_outcome_witness:
  "date_n_days_ago inbox 7 = Some ''2026/10/28'' \<and>
   or_default (messages (search inbox (query_for ''nobody@example.com'' ''2026/10/28'') None)) [] = [] \<and>
   fault_free inbox \<and>
   fst (label_rule 7 (''nobody@example.com'', ''Alerts'') inbox) = Inr () \<and>
   calls (snd (label_rule 7 (''nobody@example.com'', ''Alerts'') inbox)) =
     [LabelsList, MessagesList ''from:nobody@example.com after:2026/10/28'' None] \<and>
   logged (snd (label_rule 7 (''nobody@example.com'', ''Alerts'') inbox)) =
     [InfoLabelExists ''Alerts'', InfoNoEmails ''nobody@example.com'' 7] \<and>
   filter is_get (issued inbox (snd (label_rule 7 (''nobody@example.com'', ''Alerts'') inbox))) = [] \<and>
   filter is_modify (issued inbox (snd (label_rule 7 (''nobody@example.com'', ''Alerts'') inbox))) = [] \<and>
   applied (written inbox (snd (label_rule 7 (''nobody@example.com'', ''Alerts'') inbox))) = 0 \<and>
   skipped (written inbox (snd (label_rule 7 (''nobody@example.com'', ''Alerts'') inbox))) = 0"
proof -
  have h1: "date_n_days_ago inbox 7 = Some ''2026/10/28''"
    by (simp add: inbox_def date_n_days_ago_def)
  have h2: "or_default (messages (search inbox (query_for ''nobody@example.com'' ''2026/10/28'') None)) [] = []"
    by (simp add: inbox_def query_for_def)
  have h3: "fault_free inbox"
    by (simp add: inbox_def fault_free_def)
  from no_match_outcome
         [OF h1 h2 surjective_pairing[of "label_rule 7 (''nobody@example.com'', ''Alerts'') inbox"]]
    h1 h2 h3
  have "fst (label_rule 7 (''nobody@example.com'', ''Alerts'') inbox) = Inr () \<and>
     filter is_get (issued inbox (snd (label_rule 7 (''nobody@example.com'', ''Alerts'') inbox))) = [] \<and>
     filter is_modify (issued inbox (snd (label_rule 7 (''nobody@example.com'', ''Alerts'') inbox))) = [] \<and>
     applied (written inbox (snd (label_rule 7 (''nobody@example.com'', ''Alerts'') inbox))) = 0 \<and>
     skipped (written inbox (snd (label_rule 7 (''nobody@example.com'', ''Alerts'') inbox))) = 0"
    by (simp add: filter_empty_conv)
  moreover have
    "calls (snd (label_rule 7 (''nobody@example.com'', ''Alerts'') inbox)) =
       [LabelsList, MessagesList ''from:nobody@example.com after:2026/10/28'' None]"
    "logged (snd (label_rule 7 (''nobody@example.com'', ''Alerts'') inbox)) =
       [InfoLabelExists ''Alerts'', InfoNoEmails ''nobody@example.com'' 7]"
    by (simp_all add: inbox_def run_defs)
  ultimately show ?thesis using h1 h2 h3 by simp
qed

subsection \<open>Listing the labels\<close>

lemma label_rules_lists:
  assumes "label_rules rules d w = (Inr (), w')"
  shows "count_list (issued w w') LabelsList = length rules"
  using assms
proof (induction rules arbitrary: w)
  case Nil
  then show ?case by (simp add: label_rules_def)
next
  case (Cons rule rules)
  obtain s n where rule: "rule = (s, n)" by (cases rule)
  obtain r1 w1 where step: "label_rule d (s, n) w = (r1, w1)"
    by (cases "label_rule d (s, n) w")
  have ev: "evolves w w1" using step by (rule label_rule_evolves)
  from Cons.prems step rule have r1: "r1 = Inr ()" and rest: "label_rules rules d w1 = (Inr (), w')"
    by (cases r1; simp add: label_rules_def)+
  have ev2: "evolves w1 w'" using rest by (rule label_rules_evolves)
  from label_rule_lists[OF step] Cons.IH[OF rest] show ?case
    unfolding issued_trans[OF ev ev2] by simp
qed

text \<open>
  C4, as the code has it. There is no cache: every call of \<open>get_or_create_label\<close> sends
  one \<open>labels.list\<close> request, before anything else. A run of \<open>label_emails\<close> that ends
  without an exception and without a logged error has sent one such request for each
  rule, whether or not rules share a label name.
\<close>

theorem label_list_fetched_for_every_rule:
  "(\<exists>cs. issued w (snd (get_or_create_label name w)) = LabelsList # cs \<and> LabelsList \<notin> set cs)
   \<and> (fst (label_emails rules d w) = Inr ()
        \<and> ErrorOccurred \<notin> set (written w (snd (label_emails rules d w)))
      \<longrightarrow> count_list (issued w (snd (label_emails rules d w))) LabelsList = length rules)"
proof -
  obtain r w' where g: "get_or_create_label name w = (r, w')"
    by (cases "get_or_create_label name w")
  from get_or_create_label_issued[OF g] g
  have a: "\<exists>cs. issued w (snd (get_or_create_label name w)) = LabelsList # cs \<and> LabelsList \<notin> set cs"
    by auto
  obtain r2 w2 where run: "label_emails rules d w = (r2, w2)"
    by (cases "label_emails rules d w")
  have b: "count_list (issued w w2) LabelsList = length rules"
    if "r2 = Inr ()" "ErrorOccurred \<notin> set (written w w2)"
    using run
  proof (cases rule: label_emails_cases)
    case (caught w1)
    from caught(1) have "evolves w w1" by (rule label_rules_evolves)
    with caught(3) that(2) show ?thesis by (simp add: written_step)
  next
    case passed
    with that(1) show ?thesis by (simp add: label_rules_lists)
  qed
  from a b run show ?thesis by simp
qed

theorem label_list_fetched_for_every_rule_witness:
  "fst (label_emails shared_label_rules 7 inbox) = Inr () \<and>
   ErrorOccurred \<notin> set (written inbox (snd (label_emails shared_label_rules 7 inbox))) \<and>
   count_list (issued inbox (snd (label_emails shared_label_rules 7 inbox))) LabelsList = 2"
proof -
  have h1: "fst (label_emails shared_label_rules 7 inbox) = Inr ()"
    by (simp add: inbox_def shared_label_rules_def run_defs)
  have h2: "ErrorOccurred \<notin> set (written inbox (snd (label_emails shared_label_rules 7 inbox)))"
    by (simp add: inbox_def shared_label_rules_def run_defs written_def)
  from label_list_fetched_for_every_rule[of inbox "''Alerts''" shared_label_rules 7] h1 h2
  show ?thesis by (simp add: shared_label_rules_def)
qed

text \<open>
  Two rules that share the label \<open>Alerts\<close>, and a service that answers every request:
  the labels are listed twice in the one run.
\<close>

theorem label_list_fetched_twice:
  "calls (snd (label_emails shared_label_rules 7 inbox)) =
     [LabelsList,
      MessagesList ''from:alerts@example.com after:2026/10/28'' None,
      MessagesGet ''m1'' ''metadata'',
      MessagesGet ''m2'' ''metadata'',
      MessagesModify ''m2'' [(''addLabelIds'', [''Label_1''])],
      LabelsList,
      MessagesList ''from:news@example.com after:2026/10/28'' None,
      MessagesGet ''m3'' ''metadata'',
      MessagesModify ''m3'' [(''addLabelIds'', [''Label_1''])]]
   \<and> \<not> count_list (calls (snd (label_emails shared_label_rules 7 inbox))) LabelsList \<le> 1"
  by (simp add: inbox_def shared_label_rules_def run_defs)

subsection \<open>Errors of the service\<close>

text \<open>
  C3, as the code has it. The \<open>try\<close> is around the loop over the rules, so an
  \<open>HttpError\<close> never leaves \<open>label_emails\<close>, and the rule (or the message) it was raised
  in is the last one processed: the result of the whole run is the world the failing
  rule left, with one more error line, whatever rules come after it; and the loop over
  the messages of a rule ends at the message whose \<open>get\<close> or \<open>modify\<close> raised.
\<close>

theorem http_error_ends_the_run:
  "fst (label_emails rules d w) \<noteq> Inl HttpError
   \<and> (label_rules pre d w = (Inr (), w1) \<and> label_rule d rule w1 = (Inl HttpError, w2)
        \<longrightarrow> label_emails (pre @ rule # post) d w = (Inr (), logging ErrorOccurred w2))
   \<and> (label_messages label_id s n ms1 v = (Inr (), v1) \<and> label_message label_id s n m v1 = (Inl e, v2)
        \<longrightarrow> label_messages label_id s n (ms1 @ m # ms2) v = (Inl e, v2))"
proof -
  obtain r w' where run: "label_emails rules d w = (r, w')"
    by (cases "label_emails rules d w")
  then have "r \<noteq> Inl HttpError"
    by (cases rule: label_emails_cases) simp_all
  with run show ?thesis
    by (simp add: label_emails_def label_rules_def label_messages_def for_each_append)
qed

theorem http_error_ends_the_run_witness:
  "label_rules [] 7 (with_faults [True] inbox) = (Inr (), with_faults [True] inbox) \<and>
   fst (label_rule 7 (''alerts@example.com'', ''Alerts'') (with_faults [True] inbox)) = Inl HttpError \<and>
   label_emails ([] @ (''alerts@example.com'', ''Alerts'') # [(''news@example.com'', ''News'')]) 7
       (with_faults [True] inbox)
     = (Inr (), logging ErrorOccurred
          (snd (label_rule 7 (''alerts@example.com'', ''Alerts'') (with_faults [True] inbox)))) \<and>
   label_messages ''Label_1'' ''alerts@example.com'' ''Alerts'' [] (with_faults [True] inbox)
     = (Inr (), with_faults [True] inbox) \<and>
   fst (label_message ''Label_1'' ''alerts@example.com'' ''Alerts'' ''m1'' (with_faults [True] inbox))
     = Inl HttpError \<and>
   fst (label_messages ''Label_1'' ''alerts@example.com'' ''Alerts'' ([] @ ''m1'' # [''m2''])
          (with_faults [True] inbox)) = Inl HttpError"
proof -
  let ?w = "with_faults [True] inbox"
  have h1: "label_rules [] 7 ?w = (Inr (), ?w)" by (simp add: label_rules_def)
  have h2: "fst (label_rule 7 (''alerts@example.com'', ''Alerts'') ?w) = Inl HttpError"
    by (simp add: inbox_def with_faults_def run_defs)
  then have h2': "label_rule 7 (''alerts@example.com'', ''Alerts'') ?w
      = (Inl HttpError, snd (label_rule 7 (''alerts@example.com'', ''Alerts'') ?w))"
    by (metis surjective_pairing)
  have h3: "label_messages ''Label_1'' ''alerts@example.com'' ''Alerts'' [] ?w = (Inr (), ?w)"
    by (simp add: label_messages_def)
  have h4: "fst (label_message ''Label_1'' ''alerts@example.com'' ''Alerts'' ''m1'' ?w) = Inl HttpError"
    by (simp add: inbox_def with_faults_def run_defs)
  then have h4': "label_message ''Label_1'' ''alerts@example.com'' ''Alerts'' ''m1'' ?w
      = (Inl HttpError, snd (label_message ''Label_1'' ''alerts@example.com'' ''Alerts'' ''m1'' ?w))"
    by (metis surjective_pairing)
  from http_error_ends_the_run[of "[]" 7 ?w "[]" ?w "(''alerts@example.com'', ''Alerts'')"
      "snd (label_rule 7 (''alerts@example.com'', ''Alerts'') ?w)" "[(''news@example.com'', ''News'')]"
      "''Label_1''" "''alerts@example.com''" "''Alerts''" "[]" ?w ?w "''m1''" HttpError
      "snd (label_message ''Label_1'' ''alerts@example.com'' ''Alerts'' ''m1'' ?w)" "[''m2'']"]
    h1 h2 h2' h3 h4 h4'
  show ?thesis by simp
qed

text \<open>
  Two rules, and a service that fails the first request only. The run sends that one
  request; nothing is sent for the second rule, whose message \<open>m3\<close> stays as it was,
  and the fault schedule is used up, so every further request would have been answered.
\<close>

theorem rules_after_an_error_are_dropped:
  "calls (snd (label_emails two_rules 7 (with_faults [True] inbox))) = [LabelsList]
   \<and> logged (snd (label_emails two_rules 7 (with_faults [True] inbox)))
       = [ErrorLabel ''Alerts'', ErrorOccurred]
   \<and> existing (snd (label_emails two_rules 7 (with_faults [True] inbox))) ''m3'' = [''INBOX'']
   \<and> faults (snd (label_emails two_rules 7 (with_faults [True] inbox))) = []"
  by (simp add: inbox_def two_rules_def with_faults_def run_defs)

subsection \<open>Result pages\<close>

text \<open>
  C7. The search is one \<open>messages.list\<close> request without a page token, and the
  \<open>nextPageToken\<close> of its response is never read. On a mailbox whose search result has
  a second page the run sends no second \<open>list\<close> request, and the message on the second
  page is neither fetched nor labeled.
\<close>

theorem second_page_is_never_requested:
  "nextPageToken (search paged_inbox ''from:alerts@example.com after:2026/10/28'' None) = Some ''page2''
   \<and> messages (search paged_inbox ''from:alerts@example.com after:2026/10/28'' (Some ''page2''))
       = Some [''m4'']
   \<and> calls (snd (label_emails [(''alerts@example.com'', ''Alerts'')] 7 paged_inbox)) =
       [LabelsList,
        MessagesList ''from:alerts@example.com after:2026/10/28'' None,
        MessagesGet ''m1'' ''metadata'',
        MessagesGet ''m2'' ''metadata'',
        MessagesModify ''m2'' [(''addLabelIds'', [''Label_1''])]]
   \<and> existing (snd (label_emails [(''alerts@example.com'', ''Alerts'')] 7 paged_inbox)) ''m4'' = []
   \<and> logged (snd (label_emails [(''alerts@example.com'', ''Alerts'')] 7 paged_inbox)) =
       [InfoLabelExists ''Alerts'',
        InfoAlreadyLabeled ''m1'' ''alerts@example.com'' ''Alerts'',
        InfoLabeled ''m2'' ''alerts@example.com'' ''Alerts'']"
  by (simp add: paged_inbox_def inbox_def run_defs)

subsection \<open>\<open>main\<close>\<close>

lemma main_unfold:
  "main (Json cfg) w =
     (if or_default (SENDER_LABELS cfg) [] = [] then
        (Inr (), logging WarningNoSenderLabels (logging InfoConfigLoaded w))
      else
        (case py_int (days_to_look_back_str cfg) of
           None \<Rightarrow> (Inr (), logging (ErrorInvalidDays (days_to_look_back_str cfg))
                               (logging InfoConfigLoaded w))
         | Some days \<Rightarrow>
             (case authenticate_gmail (logging InfoConfigLoaded w) of
                (Inl e, w2) \<Rightarrow> (Inl e, w2)
              | (Inr service, w2) \<Rightarrow> label_emails (or_default (SENDER_LABELS cfg) []) days w2)))"
  by (simp add: main_def load_config_def Let_def split: option.splits)

lemma py_int_30 [simp]: "py_int ''30'' = Some 30"
  by (simp add: py_int_def strip_def is_space_def py_digits_def is_digit_def digit_val_def)

text \<open>
  C8, as the code has it. The lookback string is whatever \<open>int\<close> accepts, and a negative
  integer is accepted. For a string that \<open>int\<close> rejects, \<open>main\<close> logs one line (the
  error about the value, or the warning about the missing senders, which is checked
  first), returns normally, and sends nothing.
\<close>

theorem invalid_days_stop_before_any_request:
  assumes "py_int (days_to_look_back_str cfg) = None"
  shows "main (Json cfg) w =
           (Inr (),
            logging (if or_default (SENDER_LABELS cfg) [] = [] then WarningNoSenderLabels
                     else ErrorInvalidDays (days_to_look_back_str cfg))
              (logging InfoConfigLoaded w))
       \<and> issued w (snd (main (Json cfg) w)) = []"
  using assms by (simp add: main_unfold issued_def)

theorem invalid_days_stop_before_any_request_witness:
  "py_int (days_to_look_back_str
      \<lparr>SENDER_LABELS = Some two_rules, DAYS_TO_LOOK_BACK = Some [(''Days'', ''abc'')]\<rparr>) = None \<and>
   main (Json \<lparr>SENDER_LABELS = Some two_rules, DAYS_TO_LOOK_BACK = Some [(''Days'', ''abc'')]\<rparr>) inbox
     = (Inr (), logging (ErrorInvalidDays ''abc'') (logging InfoConfigLoaded inbox)) \<and>
   issued inbox
     (snd (main (Json \<lparr>SENDER_LABELS = Some two_rules, DAYS_TO_LOOK_BACK = Some [(''Days'', ''abc'')]\<rparr>)
             inbox)) = []"
proof -
  let ?cfg = "\<lparr>SENDER_LABELS = Some two_rules, DAYS_TO_LOOK_BACK = Some [(''Days'', ''abc'')]\<rparr>"
  have d: "days_to_look_back_str ?cfg = ''abc''"
    by (simp add: days_to_look_back_str_def)
  have h: "py_int (days_to_look_back_str ?cfg) = None"
    unfolding d
    by (simp add: py_int_def strip_def is_space_def py_digits_def is_digit_def)
  from invalid_days_stop_before_any_request[OF h, of inbox] h d
  show ?thesis by (simp add: two_rules_def issued_def)
qed

text \<open>
  \<open>"Days": "-3"\<close> with one sender configured: \<open>int\<close> accepts the string, and \<open>main\<close>
  builds the service, lists the labels and searches with a cutoff three days ahead.
\<close>

theorem negative_days_reach_the_service:
  "py_int (days_to_look_back_str negative_days) = Some (- 3)
   \<and> fst (main (Json negative_days) inbox) = Inr ()
   \<and> calls (snd (main (Json negative_days) inbox)) =
       [BuildService, LabelsList, MessagesList ''from:alerts@example.com after:2026/11/07'' None]
   \<and> logged (snd (main (Json negative_days) inbox)) =
       [InfoConfigLoaded, InfoAuthStart, InfoAuthLoading, InfoAuthValid, InfoAuthBuilt,
        InfoLabelExists ''Alerts'', InfoNoEmails ''alerts@example.com'' (- 3)]"
proof -
  have p: "py_int (days_to_look_back_str negative_days) = Some (- 3)"
    by (simp add: negative_days_def days_to_look_back_str_def py_int_def strip_def is_space_def
        py_digits_def is_digit_def digit_val_def)
  then show ?thesis
    by (simp add: main_unfold)
       (simp add: negative_days_def inbox_def authenticate_gmail_def build_service_def
          auth_step_def run_defs)
qed



text \<open>
  C10. When the configuration has no \<open>DAYS_TO_LOOK_BACK\<close>, or has one without the field
  \<open>Days\<close>, \<open>main\<close> does what it does for \<open>"Days": "30"\<close>: with senders configured it
  authenticates and calls \<open>label_emails\<close> with 30 days, and it logs nothing about the
  missing value.
\<close>

theorem missing_days_default_to_30:
  assumes "DAYS_TO_LOOK_BACK cfg = None
           \<or> (\<exists>obj. DAYS_TO_LOOK_BACK cfg = Some obj \<and> map_of obj ''Days'' = None)"
  shows "main (Json cfg) w = main (Json (cfg\<lparr>DAYS_TO_LOOK_BACK := Some [(''Days'', ''30'')]\<rparr>)) w
       \<and> (or_default (SENDER_LABELS cfg) [] \<noteq> [] \<longrightarrow>
            main (Json cfg) w =
              (case authenticate_gmail (logging InfoConfigLoaded w) of
                 (Inl e, w2) \<Rightarrow> (Inl e, w2)
               | (Inr service, w2) \<Rightarrow> label_emails (or_default (SENDER_LABELS cfg) []) 30 w2))"
proof -
  from assms have "days_to_look_back_str cfg = ''30''"
    by (auto simp add: days_to_look_back_str_def)
  moreover have
    "days_to_look_back_str (cfg\<lparr>DAYS_TO_LOOK_BACK := Some [(''Days'', ''30'')]\<rparr>) = ''30''"
    by (simp add: days_to_look_back_str_def)
  moreover have "SENDER_LABELS (cfg\<lparr>DAYS_TO_LOOK_BACK := Some [(''Days'', ''30'')]\<rparr>) = SENDER_LABELS cfg"
    by simp
  ultimately show ?thesis unfolding main_unfold by (simp split: prod.splits sum.splits)
qed

theorem missing_days_default_to_30_witness:
  "DAYS_TO_LOOK_BACK no_days = None \<and>
   or_default (SENDER_LABELS no_days) [] \<noteq> [] \<and>
   fst (main (Json no_days) inbox) = Inr () \<and>
   calls (snd (main (Json no_days) inbox)) =
     [BuildService, LabelsList, MessagesList ''from:alerts@example.com after:2026/10/05'' None] \<and>
   logged (snd (main (Json no_days) inbox)) =
     [InfoConfigLoaded, InfoAuthStart, InfoAuthLoading, InfoAuthValid, InfoAuthBuilt,
      InfoLabelExists ''Alerts'', InfoNoEmails ''alerts@example.com'' 30]"
proof -
  have h: "DAYS_TO_LOOK_BACK no_days = None" by (simp add: no_days_def)
  have s: "or_default (SENDER_LABELS no_days) [] \<noteq> []" by (simp add: no_days_def)
  from missing_days_default_to_30[of no_days inbox] h s
  have "main (Json no_days) inbox =
          (case authenticate_gmail (logging InfoConfigLoaded inbox) of
             (Inl e, w2) \<Rightarrow> (Inl e, w2)
           | (Inr service, w2) \<Rightarrow> label_emails (or_default (SENDER_LABELS no_days) []) 30 w2)"
    by blast
  then show ?thesis using h
    by (simp add: no_days_def inbox_def authenticate_gmail_def build_service_def
          auth_step_def run_defs)
qed

end
